theory Spec2Isabelle
  imports Main "HOL-Library.Word"
begin

unbundle bit_operations_syntax

text \<open>
  A shallow embedding of three parts of gortsplib: the keyframe test on RTP/H264 packets
  (\<^verbatim>\<open>rtpH264ContainsIDR\<close> in pkg/formats/h264.go), the RTP/MPEG-2 audio decoder, which
  reassembles fragmented frames, and the RTP/AV1 encoder, which packs OBUs into packets.
  Functions of other packages (mediacommon's frame header, key frame test and LEB128
  encoding, rtptime's clocks, the random source) are parameters of the functions that call
  them. All definitions come first; the properties follow, one section for each part.
\<close>

section \<open>Shared data model\<close>

type_synonym byte = "8 word"

text \<open>
  The fields of \<^verbatim>\<open>rtp.Packet\<close> (pion/rtp) that the three source files read or write.
\<close>

record rtp_packet =
  Version :: "8 word"
  Marker :: bool
  PayloadType :: "8 word"
  SequenceNumber :: "16 word"
  Timestamp :: "32 word"
  SSRC :: "32 word"
  Payload :: "byte list"

text \<open>
  Go panics on an index or a slice bound out of range. The panic is a value of the
  model, so that "never panics" is a statement about the result.
\<close>

datatype panic = IndexOutOfRange | SliceBoundsOutOfRange | NilDereference | MakeNegativeLen

definition index :: "'a list \<Rightarrow> nat \<Rightarrow> panic + 'a" where
  \<comment> \<open>\<^verbatim>\<open>xs[i]\<close>\<close>
  "index xs i = (if i < length xs then Inr (xs ! i) else Inl IndexOutOfRange)"

definition slice_from :: "'a list \<Rightarrow> nat \<Rightarrow> panic + 'a list" where
  \<comment> \<open>\<^verbatim>\<open>xs[i:]\<close>\<close>
  "slice_from xs i = (if i \<le> length xs then Inr (drop i xs) else Inl SliceBoundsOutOfRange)"

definition slice_to :: "'a list \<Rightarrow> nat \<Rightarrow> panic + 'a list" where
  \<comment> \<open>\<^verbatim>\<open>xs[:j]\<close>\<close>
  "slice_to xs j = (if j \<le> length xs then Inr (take j xs) else Inl SliceBoundsOutOfRange)"

definition be16 :: "byte \<Rightarrow> byte \<Rightarrow> 16 word" where
  \<comment> \<open>\<^verbatim>\<open>uint16(b0)<<8 | uint16(b1)\<close>\<close>
  "be16 b0 b1 = push_bit 8 (ucast b0 :: 16 word) OR ucast b1"

section \<open>NAL classifier: \<^verbatim>\<open>rtpH264ContainsIDR\<close> (pkg/formats/h264.go)\<close>

definition NALUTypeIDR :: byte where
  \<comment> \<open>\<^verbatim>\<open>h264.NALUTypeIDR\<close>, the keyframe type constant 5\<close>
  "NALUTypeIDR = 5"

text \<open>The \<^verbatim>\<open>for len(payload) > 0\<close> loop of the STAP-A case.\<close>

function stapA_loop :: "byte list \<Rightarrow> panic + bool" where
  "stapA_loop payload =
     (if length payload > 0 then
        if length payload < 2 then Inr False
        else
          case index payload 0 of Inl e \<Rightarrow> Inl e | Inr b0 \<Rightarrow>
          case index payload 1 of Inl e \<Rightarrow> Inl e | Inr b1 \<Rightarrow>
          let size = be16 b0 b1 in
          case slice_from payload 2 of Inl e \<Rightarrow> Inl e | Inr payload1 \<Rightarrow>
          if size = 0 \<or> unat size > length payload1 then Inr False
          else
            case slice_to payload1 (unat size) of Inl e \<Rightarrow> Inl e | Inr nalu \<Rightarrow>
            case slice_from payload1 (unat size) of Inl e \<Rightarrow> Inl e | Inr payload2 \<Rightarrow>
            case index nalu 0 of Inl e \<Rightarrow> Inl e | Inr n0 \<Rightarrow>
            if (n0 AND 0x1F) = NALUTypeIDR then Inr True
            else stapA_loop payload2
      else Inr False)"
  by pat_completeness auto
termination
  by (relation "measure length") (auto simp: slice_from_def split: if_splits)

definition rtpH264ContainsIDR :: "rtp_packet \<Rightarrow> panic + bool" where
  "rtpH264ContainsIDR pkt =
     (if length (Payload pkt) = 0 then Inr False
      else
        case index (Payload pkt) 0 of Inl e \<Rightarrow> Inl e | Inr p0 \<Rightarrow>
        let typ = p0 AND 0x1F in
        if typ = NALUTypeIDR then Inr True
        else if typ = 24 then
          (case slice_from (Payload pkt) 1 of Inl e \<Rightarrow> Inl e | Inr payload \<Rightarrow>
           stapA_loop payload)
        else if typ = 28 then
          (if length (Payload pkt) < 2 then Inr False
           else
             case index (Payload pkt) 1 of Inl e \<Rightarrow> Inl e | Inr p1 \<Rightarrow>
             let start = drop_bit 7 p1 in
             if start \<noteq> 1 then Inr False
             else Inr ((p1 AND 0x1F) = NALUTypeIDR))
        else Inr False)"

subsection \<open>The case split as the specification words it\<close>

text \<open>
  The entries of an aggregation payload: a 2-byte big-endian size, then that many bytes.
  The walk stops at the first bound violation (fewer than 2 bytes left, a size of zero, a
  size larger than what is left), so every entry listed comes before a violation.
\<close>

function stap_entries :: "byte list \<Rightarrow> byte list list" where
  "stap_entries bs =
     (case bs of
        hi # lo # rest \<Rightarrow>
          (let n = 256 * unat hi + unat lo in
           if n = 0 \<or> length rest < n then []
           else take n rest # stap_entries (drop n rest))
      | _ \<Rightarrow> [])"
  by pat_completeness auto
termination
  by (relation "measure length") auto

definition unit_type :: "byte list \<Rightarrow> byte" where
  \<comment> \<open>the low 5 bits of the first byte of a unit\<close>
  "unit_type u = hd u AND 0x1F"

definition contains_keyframe_spec :: "byte list \<Rightarrow> bool" where
  "contains_keyframe_spec p =
     (let typ = unit_type p in
      if typ = 24 then list_ex (\<lambda>e. unit_type e = 5) (stap_entries (tl p))
      else if typ = 28 then (2 \<le> length p \<and> bit (p ! 1) 7 \<and> ((p ! 1) AND 0x1F) = 5)
      else typ = 5)"

text \<open>
  How a sender lays one unit out inside an aggregation payload, and what the walk counts
  as a bound violation at the head of the remaining bytes.
\<close>

definition stap_entry :: "byte list \<Rightarrow> byte list" where
  "stap_entry u = word_of_nat (length u div 256) # word_of_nat (length u mod 256) # u"

fun bound_violation :: "byte list \<Rightarrow> bool" where
  "bound_violation [] = False"
| "bound_violation [b] = True"
| "bound_violation (hi # lo # rest) =
     (256 * unat hi + unat lo = 0 \<or> length rest < 256 * unat hi + unat lo)"

definition payload_packet :: "byte list \<Rightarrow> rtp_packet" where
  \<comment> \<open>a packet around a given payload, for concrete instances\<close>
  "payload_packet p =
     \<lparr>Version = 2, Marker = False, PayloadType = 96, SequenceNumber = 0, Timestamp = 0,
      SSRC = 0, Payload = p\<rparr>"

section \<open>Fragment reassembler: the RTP/MPEG-2 audio \<^verbatim>\<open>Decoder\<close>\<close>

text \<open>
  The errors \<^verbatim>\<open>Decode\<close> returns, one constructor per \<^verbatim>\<open>return nil, 0, err\<close> of the
  source. \<^verbatim>\<open>ErrFrameHeader\<close> is the error handed on from \<^verbatim>\<open>FrameHeader.Unmarshal\<close>.
\<close>

datatype decode_error =
    ErrPayloadTooShort
  | ErrInvalidMBZ "16 word"
  | ErrFrameHeader
  | ErrInvalidPacket
  | ErrMorePacketsNeeded
  | ErrNonStartingPacketAndNoPrevious
  | ErrUnexpectedOffset "16 word" int
  | ErrFragmentTooBig

text \<open>
  The decoder struct. \<^verbatim>\<open>timeDecoder\<close> is a pointer, nil until \<^verbatim>\<open>Init\<close>; its pointee, of
  the package rtptime, is kept abstract as a state of type \<open>'td\<close>. Go's \<^verbatim>\<open>int\<close> has 64
  bits; the sizes below are sums of payload lengths, so they are modelled as \<open>int\<close>.
\<close>

record 'td Decoder =
  timeDecoder :: "'td option"
  firstPacketReceived :: bool
  fragments :: "byte list list"
  fragmentsSize :: int
  fragmentsExpected :: int

definition new_Decoder :: "'td Decoder" where
  \<comment> \<open>the zero value \<^verbatim>\<open>&Decoder{}\<close>\<close>
  "new_Decoder =
     \<lparr>timeDecoder = None, firstPacketReceived = False, fragments = [],
      fragmentsSize = 0, fragmentsExpected = 0\<rparr>"

definition Init :: "(int \<Rightarrow> 'td) \<Rightarrow> 'td Decoder \<Rightarrow> 'td Decoder" where
  \<comment> \<open>the parameter is \<^verbatim>\<open>rtptime.NewDecoder\<close>\<close>
  "Init NewDecoder d = d\<lparr>timeDecoder := Some (NewDecoder 90000)\<rparr>"

text \<open>
  \<^verbatim>\<open>copy(dst, src)\<close> writes \<open>min (len dst) (len src)\<close> bytes and returns their number;
  \<^verbatim>\<open>joinFragments\<close> copies each fragment behind the previous one into a zeroed buffer
  of \<^verbatim>\<open>size\<close> bytes (\<^verbatim>\<open>make\<close> panics on a negative length).
\<close>

definition copy :: "'a list \<Rightarrow> 'a list \<Rightarrow> 'a list \<times> nat" where
  "copy dst src = (let k = min (length dst) (length src) in (take k src @ drop k dst, k))"

fun joinFragments_loop :: "byte list list \<Rightarrow> byte list \<Rightarrow> nat \<Rightarrow> byte list" where
  "joinFragments_loop [] ret n = ret"
| "joinFragments_loop (p # ps) ret n =
     (let (written, k) = copy (drop n ret) p
      in joinFragments_loop ps (take n ret @ written) (n + k))"

definition joinFragments :: "byte list list \<Rightarrow> int \<Rightarrow> panic + byte list" where
  "joinFragments frags sz =
     (if sz < 0 then Inl MakeNegativeLen
      else Inr (joinFragments_loop frags (replicate (nat sz) 0) 0))"

text \<open>
  The \<^verbatim>\<open>for\<close> loop of the branch \<^verbatim>\<open>offset == 0\<close>. Its parameters are the two functions of
  the package mpeg2audio it calls: \<^verbatim>\<open>FrameHeader.Unmarshal\<close> (\<open>None\<close> for an error) and
  \<^verbatim>\<open>FrameHeader.FrameLen\<close>. The loop has no bound of its own: with a frame length of 0
  it would never leave, so not returning is the value \<open>None\<close>. \<^verbatim>\<open>buf[:fl]\<close> panics on a
  negative \<^verbatim>\<open>fl\<close>; \<^verbatim>\<open>fl\<close> is at most \<^verbatim>\<open>len(buf)\<close> there.
\<close>

type_synonym 'td loop_return = "(decode_error + byte list list) \<times> 'td Decoder"

partial_function (option) frames_loop ::
  "(byte list \<Rightarrow> 'h option) \<Rightarrow> ('h \<Rightarrow> int) \<Rightarrow> 'td Decoder \<Rightarrow> byte list \<Rightarrow> byte list list
     \<Rightarrow> (panic + 'td loop_return) option" where
  "frames_loop Unmarshal FrameLen d buf frames =
     (case Unmarshal buf of
        None \<Rightarrow> Some (Inr (Inl ErrFrameHeader, d))
      | Some h \<Rightarrow>
          if int (length buf) \<ge> FrameLen h then
            if FrameLen h < 0 then Some (Inl SliceBoundsOutOfRange)
            else if length (drop (nat (FrameLen h)) buf) = 0
              then Some (Inr (Inr (frames @ [take (nat (FrameLen h)) buf]), d))
              else frames_loop Unmarshal FrameLen d (drop (nat (FrameLen h)) buf)
                     (frames @ [take (nat (FrameLen h)) buf])
          else if length frames \<noteq> 0 then Some (Inr (Inl ErrInvalidPacket, d))
          else Some (Inr (Inl ErrMorePacketsNeeded,
                 d\<lparr>fragments := fragments d @ [buf],
                   fragmentsSize := int (length buf),
                   fragmentsExpected := FrameLen h - int (length buf)\<rparr>)))"

declare frames_loop.simps [code]

text \<open>
  The last line of \<^verbatim>\<open>Decode\<close>: \<^verbatim>\<open>return frames, d.timeDecoder.Decode(pkt.Timestamp), nil\<close>.
  The parameter is \<^verbatim>\<open>rtptime.Decoder.Decode\<close>, which updates its receiver.
\<close>

type_synonym 'td decode_return = "(decode_error + byte list list \<times> int) \<times> 'td Decoder"

definition return_frames ::
  "('td \<Rightarrow> 32 word \<Rightarrow> int \<times> 'td) \<Rightarrow> 'td Decoder \<Rightarrow> rtp_packet \<Rightarrow> byte list list
     \<Rightarrow> (panic + 'td decode_return) option" where
  "return_frames timeDecode d pkt frames =
     (case timeDecoder d of
        None \<Rightarrow> Some (Inl NilDereference)
      | Some td \<Rightarrow>
          (let (pts, td') = timeDecode td (Timestamp pkt)
           in Some (Inr (Inr (frames, pts), d\<lparr>timeDecoder := Some td'\<rparr>))))"

text \<open>
  \<^verbatim>\<open>Decode\<close>. The result is \<open>None\<close> when the call does not return, \<open>Some (Inl p)\<close> when it
  panics, and otherwise the returned error or frames together with the decoder after the
  call. The four header bytes are read behind the guard \<^verbatim>\<open>len(pkt.Payload) < 5\<close>.
\<close>

definition Decode ::
  "(byte list \<Rightarrow> 'h option) \<Rightarrow> ('h \<Rightarrow> int) \<Rightarrow> ('td \<Rightarrow> 32 word \<Rightarrow> int \<times> 'td)
     \<Rightarrow> 'td Decoder \<Rightarrow> rtp_packet \<Rightarrow> (panic + 'td decode_return) option" where
  "Decode Unmarshal FrameLen timeDecode d pkt =
     (if length (Payload pkt) < 5 then
        Some (Inr (Inl ErrPayloadTooShort, d\<lparr>fragments := [], fragmentsSize := 0\<rparr>))
      else
        let mbz = be16 (Payload pkt ! 0) (Payload pkt ! 1) in
        if mbz \<noteq> 0 then
          Some (Inr (Inl (ErrInvalidMBZ mbz), d\<lparr>fragments := [], fragmentsSize := 0\<rparr>))
        else
          let offset = be16 (Payload pkt ! 2) (Payload pkt ! 3) in
          if offset = 0 then
            (let d1 = d\<lparr>fragments := [], fragmentsSize := 0, firstPacketReceived := True\<rparr>;
                 buf = drop 4 (Payload pkt)
             in case frames_loop Unmarshal FrameLen d1 buf [] of
                  None \<Rightarrow> None
                | Some (Inl p) \<Rightarrow> Some (Inl p)
                | Some (Inr (Inl e, d2)) \<Rightarrow> Some (Inr (Inl e, d2))
                | Some (Inr (Inr frames, d2)) \<Rightarrow> return_frames timeDecode d2 pkt frames)
          else if uint offset \<noteq> fragmentsSize d then
            (if \<not> firstPacketReceived d then
               Some (Inr (Inl ErrNonStartingPacketAndNoPrevious, d))
             else
               let d1 = d\<lparr>fragments := [], fragmentsSize := 0\<rparr>
               in Some (Inr (Inl (ErrUnexpectedOffset offset (fragmentsSize d1)), d1)))
          else
            (let bl = int (length (drop 4 (Payload pkt)));
                 d1 = d\<lparr>fragmentsSize := fragmentsSize d + bl,
                        fragmentsExpected := fragmentsExpected d - bl\<rparr>
             in if fragmentsExpected d1 < 0 then
                  Some (Inr (Inl ErrFragmentTooBig, d1\<lparr>fragments := [], fragmentsSize := 0\<rparr>))
                else
                  let d2 = d1\<lparr>fragments := fragments d1 @ [drop 4 (Payload pkt)]\<rparr>
                  in if fragmentsExpected d2 > 0 then Some (Inr (Inl ErrMorePacketsNeeded, d2))
                     else
                       case joinFragments (fragments d2) (fragmentsSize d2) of
                         Inl p \<Rightarrow> Some (Inl p)
                       | Inr frame \<Rightarrow>
                           return_frames timeDecode
                             (d2\<lparr>fragments := [], fragmentsSize := 0\<rparr>) pkt [frame]))"

subsection \<open>The error taxonomy and the state invariant of the specification\<close>

datatype error_class = MalformedInput | NeedMorePackets | OutOfSequence | JoinedMidFragment | Oversize

fun class_of :: "decode_error \<Rightarrow> error_class" where
  "class_of ErrPayloadTooShort = MalformedInput"
| "class_of (ErrInvalidMBZ m) = MalformedInput"
| "class_of ErrFrameHeader = MalformedInput"
| "class_of ErrInvalidPacket = MalformedInput"
| "class_of ErrMorePacketsNeeded = NeedMorePackets"
| "class_of ErrNonStartingPacketAndNoPrevious = JoinedMidFragment"
| "class_of (ErrUnexpectedOffset off expected) = OutOfSequence"
| "class_of ErrFragmentTooBig = Oversize"

definition reassembly_empty :: "'td Decoder \<Rightarrow> bool" where
  "reassembly_empty d = (fragments d = [] \<and> fragmentsSize d = 0)"

text \<open>
  The declared length of a reassembly in progress is the frame length of the header at
  the front of the first pending fragment, the one that began the reassembly.
\<close>

definition declared_length :: "(byte list \<Rightarrow> 'h option) \<Rightarrow> ('h \<Rightarrow> int) \<Rightarrow> 'td Decoder \<Rightarrow> int option" where
  "declared_length Unmarshal FrameLen d =
     (case fragments d of
        [] \<Rightarrow> None
      | f # fs \<Rightarrow> map_option FrameLen (Unmarshal f))"

definition reassembly_inv :: "(byte list \<Rightarrow> 'h option) \<Rightarrow> ('h \<Rightarrow> int) \<Rightarrow> 'td Decoder \<Rightarrow> bool" where
  "reassembly_inv Unmarshal FrameLen d =
     (reassembly_empty d \<or>
      declared_length Unmarshal FrameLen d = Some (fragmentsSize d + fragmentsExpected d))"

text \<open>
  A stand-in for the header functions of mpeg2audio in concrete instances: a header is the
  byte \<open>0xFF\<close> and a length byte \<open>l\<close>, and declares a frame of \<open>l + 2\<close> bytes.
\<close>

definition example_Unmarshal :: "byte list \<Rightarrow> byte option" where
  "example_Unmarshal buf =
     (case buf of s # l # rest \<Rightarrow> if s = 0xFF then Some l else None | _ \<Rightarrow> None)"

definition example_FrameLen :: "byte \<Rightarrow> int" where
  "example_FrameLen l = uint l + 2"

definition example_NewDecoder :: "int \<Rightarrow> 32 word" where
  "example_NewDecoder clockRate = 0"

definition example_timeDecode :: "32 word \<Rightarrow> 32 word \<Rightarrow> int \<times> 32 word" where
  "example_timeDecode prev ts = (uint ts, ts)"

subsection \<open>What a returning call of the loop and of \<^verbatim>\<open>Decode\<close> leaves behind\<close>

definition loop_post :: "(byte list \<Rightarrow> 'h option) \<Rightarrow> ('h \<Rightarrow> int) \<Rightarrow> 'td Decoder \<Rightarrow> byte list \<Rightarrow> byte list list
     \<Rightarrow> (panic + 'td loop_return) \<Rightarrow> bool" where
  "loop_post Unmarshal FrameLen d buf frames y =
    ((\<exists>p. y = Inl p) \<or> (\<exists>fs. y = Inr (Inr fs, d)) \<or>
     y = Inr (Inl ErrFrameHeader, d) \<or> y = Inr (Inl ErrInvalidPacket, d) \<or>
     (frames = [] \<and> (\<exists>h. Unmarshal buf = Some h \<and> int (length buf) < FrameLen h \<and>
        y = Inr (Inl ErrMorePacketsNeeded,
                 d\<lparr>fragments := fragments d @ [buf], fragmentsSize := int (length buf),
                   fragmentsExpected := FrameLen h - int (length buf)\<rparr>))))"

definition reset_fragments :: "'td Decoder \<Rightarrow> 'td Decoder" where
  "reset_fragments d = d\<lparr>fragments := [], fragmentsSize := 0\<rparr>"

definition start_post ::
  "(byte list \<Rightarrow> 'h option) \<Rightarrow> ('h \<Rightarrow> int) \<Rightarrow> ('td \<Rightarrow> 32 word \<Rightarrow> int \<times> 'td)
     \<Rightarrow> 'td Decoder \<Rightarrow> rtp_packet \<Rightarrow> (decode_error + byte list list \<times> int) \<Rightarrow> 'td Decoder \<Rightarrow> bool" where
  "start_post Unmarshal FrameLen timeDecode d pkt r d' =
     (let d1 = d\<lparr>fragments := [], fragmentsSize := 0, firstPacketReceived := True\<rparr>;
          buf = drop 4 (Payload pkt)
      in (r = Inl ErrFrameHeader \<and> d' = d1) \<or>
         (r = Inl ErrInvalidPacket \<and> d' = d1) \<or>
         (\<exists>h. Unmarshal buf = Some h \<and> int (length buf) < FrameLen h \<and>
              r = Inl ErrMorePacketsNeeded \<and>
              d' = d1\<lparr>fragments := [buf], fragmentsSize := int (length buf),
                      fragmentsExpected := FrameLen h - int (length buf)\<rparr>) \<or>
         (\<exists>fs pts td td'. timeDecoder d = Some td \<and> timeDecode td (Timestamp pkt) = (pts, td') \<and>
              r = Inr (fs, pts) \<and> d' = d1\<lparr>timeDecoder := Some td'\<rparr>))"

definition continue_post ::
  "('td \<Rightarrow> 32 word \<Rightarrow> int \<times> 'td)
     \<Rightarrow> 'td Decoder \<Rightarrow> rtp_packet \<Rightarrow> (decode_error + byte list list \<times> int) \<Rightarrow> 'td Decoder \<Rightarrow> bool" where
  "continue_post timeDecode d pkt r d' =
     (let bl = int (length (Payload pkt)) - 4;
          d1 = d\<lparr>fragmentsSize := fragmentsSize d + bl,
                 fragmentsExpected := fragmentsExpected d - bl\<rparr>
      in (fragmentsExpected d < bl \<and> r = Inl ErrFragmentTooBig \<and> d' = reset_fragments d1) \<or>
         (bl < fragmentsExpected d \<and> r = Inl ErrMorePacketsNeeded \<and>
            d' = d1\<lparr>fragments := fragments d @ [drop 4 (Payload pkt)]\<rparr>) \<or>
         (fragmentsExpected d = bl \<and>
            (\<exists>frame pts td td'. timeDecoder d = Some td \<and>
               timeDecode td (Timestamp pkt) = (pts, td') \<and>
               joinFragments (fragments d @ [drop 4 (Payload pkt)]) (fragmentsSize d + bl) = Inr frame \<and>
               r = Inr ([frame], pts) \<and>
               d' = reset_fragments (d1\<lparr>timeDecoder := Some td'\<rparr>))))"

definition example_pending :: "32 word Decoder" where
  \<comment> \<open>a decoder in the middle of a reassembly: 4 of 10 declared bytes received\<close>
  "example_pending =
     \<lparr>timeDecoder = Some 0, firstPacketReceived = True, fragments = [[0xFF, 8, 1, 2]],
      fragmentsSize = 4, fragmentsExpected = 6\<rparr>"

section \<open>Unit packetizer: the RTP/AV1 \<^verbatim>\<open>Encoder\<close>\<close>

definition rtpVersion :: "8 word" where
  "rtpVersion = 2"

text \<open>
  The encoder struct. Its fields \<^verbatim>\<open>PayloadType\<close> and \<^verbatim>\<open>SSRC\<close> are named
  \<open>EncoderPayloadType\<close> and \<open>EncoderSSRC\<close> here, apart from the packet fields of the same
  name. The three optional fields and \<^verbatim>\<open>timeEncoder\<close> are pointers, nil when unset; the
  pointee of \<^verbatim>\<open>timeEncoder\<close>, of the package rtptime, is kept abstract as \<open>'te\<close>.
\<close>

record 'te Encoder =
  EncoderPayloadType :: "8 word"
  EncoderSSRC :: "32 word option"
  InitialSequenceNumber :: "16 word option"
  InitialTimestamp :: "32 word option"
  PayloadMaxSize :: int
  sequenceNumber :: "16 word"
  timeEncoder :: "'te option"

text \<open>
  \<^verbatim>\<open>Init\<close> of the encoder. \<open>r1\<close>, \<open>r2\<close>, \<open>r3\<close> are what \<^verbatim>\<open>randUint32\<close> returns where it is
  called; \<open>NewEncoder\<close> is \<^verbatim>\<open>rtptime.NewEncoder\<close>.
\<close>

definition Encoder_Init ::
  "32 word \<Rightarrow> 32 word \<Rightarrow> 32 word \<Rightarrow> (int \<Rightarrow> 32 word \<Rightarrow> 'te) \<Rightarrow> 'te Encoder \<Rightarrow> 'te Encoder" where
  "Encoder_Init r1 r2 r3 NewEncoder e =
     (let e1 = (if EncoderSSRC e = None then e\<lparr>EncoderSSRC := Some r1\<rparr> else e);
          e2 = (if InitialSequenceNumber e1 = None
                then e1\<lparr>InitialSequenceNumber := Some (ucast r2)\<rparr> else e1);
          e3 = (if InitialTimestamp e2 = None then e2\<lparr>InitialTimestamp := Some r3\<rparr> else e2);
          e4 = (if PayloadMaxSize e3 = 0 then e3\<lparr>PayloadMaxSize := 1460\<rparr> else e3)
      in e4\<lparr>sequenceNumber := the (InitialSequenceNumber e4),
            timeEncoder := Some (NewEncoder 90000 (the (InitialTimestamp e4)))\<rparr>)"

text \<open>
  The local state of one \<^verbatim>\<open>Encode\<close> call, with the encoder it updates. \<^verbatim>\<open>curPacket\<close>
  points at the packet appended last to \<^verbatim>\<open>packets\<close>, so a write through \<^verbatim>\<open>curPacket\<close> is a
  write to the last element of \<open>packets\<close>.
\<close>

record 'te encode_state =
  enc :: "'te Encoder"
  packets :: "rtp_packet list"
  curPayloadLen :: int

definition update_curPacket :: "(rtp_packet \<Rightarrow> rtp_packet) \<Rightarrow> 'te encode_state \<Rightarrow> 'te encode_state" where
  "update_curPacket f st = st\<lparr>packets := butlast (packets st) @ [f (last (packets st))]\<rparr>"

definition or_Payload0 :: "byte \<Rightarrow> rtp_packet \<Rightarrow> rtp_packet" where
  \<comment> \<open>\<^verbatim>\<open>pkt.Payload[0] |= m\<close>\<close>
  "or_Payload0 m p = p\<lparr>Payload := (Payload p)[0 := (Payload p ! 0) OR m]\<rparr>"

definition createNewPacket :: "32 word \<Rightarrow> 32 word \<Rightarrow> bool \<Rightarrow> 'te encode_state \<Rightarrow> 'te encode_state" where
  \<comment> \<open>\<open>ts\<close> and \<open>ssrc\<close> are the captured \<^verbatim>\<open>ts\<close> and \<^verbatim>\<open>*e.SSRC\<close>\<close>
  "createNewPacket ts ssrc z st =
     (let curPacket = \<lparr>Version = rtpVersion, Marker = False,
                       PayloadType = EncoderPayloadType (enc st),
                       SequenceNumber = sequenceNumber (enc st),
                       Timestamp = ts, SSRC = ssrc, Payload = [0]\<rparr>;
          st1 = st\<lparr>enc := (enc st)\<lparr>sequenceNumber := sequenceNumber (enc st) + 1\<rparr>,
                   packets := packets st @ [curPacket],
                   curPayloadLen := 1\<rparr>
      in if z then update_curPacket (or_Payload0 (push_bit 7 1)) st1 else st1)"

definition finalizeCurPacket :: "bool \<Rightarrow> 'te encode_state \<Rightarrow> 'te encode_state" where
  "finalizeCurPacket y st = (if y then update_curPacket (or_Payload0 (push_bit 6 1)) st else st)"

text \<open>
  The inner \<^verbatim>\<open>for\<close> loop, which places one OBU. \<open>LEB128Marshal\<close> is the function of that
  name of the package av1, applied to a length. The loop has no bound of its own, so not
  returning is the value \<open>None\<close>. \<^verbatim>\<open>obu[:fragmentLen]\<close> is in range: it is reached with
  \<^verbatim>\<open>obuLen + 2 > avail\<close> and \<^verbatim>\<open>avail > 2\<close>.
\<close>

partial_function (option) obu_loop ::
  "(nat \<Rightarrow> byte list) \<Rightarrow> 32 word \<Rightarrow> 32 word \<Rightarrow> 'te encode_state \<Rightarrow> byte list
     \<Rightarrow> 'te encode_state option" where
  "obu_loop LEB128Marshal ts ssrc st obu =
     (let avail = PayloadMaxSize (enc st) - curPayloadLen st;
          obuLen = int (length obu);
          needed = obuLen + 2
      in if needed \<le> avail then
           (let le = LEB128Marshal (nat obuLen)
            in Some ((update_curPacket (\<lambda>p. p\<lparr>Payload := Payload p @ le @ obu\<rparr>) st)
                       \<lparr>curPayloadLen := curPayloadLen st + int (length le) + obuLen\<rparr>))
         else
           (let (st1, obu1) =
                  (if avail > 2 then
                     (let fragmentLen = avail - 2;
                          le = LEB128Marshal (nat fragmentLen)
                      in (update_curPacket
                            (\<lambda>p. p\<lparr>Payload := Payload p @ le @ take (nat fragmentLen) obu\<rparr>) st,
                          drop (nat fragmentLen) obu))
                   else (st, obu))
            in obu_loop LEB128Marshal ts ssrc
                 (createNewPacket ts ssrc True (finalizeCurPacket True st1)) obu1))"

declare obu_loop.simps [code]

text \<open>The outer loop \<^verbatim>\<open>for _, obu := range obus\<close>.\<close>

fun obus_loop ::
  "(nat \<Rightarrow> byte list) \<Rightarrow> 32 word \<Rightarrow> 32 word \<Rightarrow> 'te encode_state \<Rightarrow> byte list list
     \<Rightarrow> 'te encode_state option" where
  "obus_loop LEB128Marshal ts ssrc st [] = Some st"
| "obus_loop LEB128Marshal ts ssrc st (obu # obus) =
     (case obu_loop LEB128Marshal ts ssrc st obu of
        None \<Rightarrow> None
      | Some st' \<Rightarrow> obus_loop LEB128Marshal ts ssrc st' obus)"

text \<open>
  \<^verbatim>\<open>Encode\<close>. \<open>ContainsKeyFrame\<close> is \<^verbatim>\<open>av1.ContainsKeyFrame\<close> (\<open>Inl\<close> for its error) and
  \<open>timeEncode\<close> is \<^verbatim>\<open>rtptime.Encoder.Encode\<close>. The result is \<open>None\<close> when the call does not
  return, \<open>Some (Inl p)\<close> when it panics on a nil \<^verbatim>\<open>timeEncoder\<close> or \<^verbatim>\<open>SSRC\<close> (an encoder
  without \<^verbatim>\<open>Init\<close>), and otherwise the returned error or packets with the encoder after the
  call. \<^verbatim>\<open>packets[0]\<close> and \<^verbatim>\<open>packets[len(packets)-1]\<close> exist: the first packet is created
  before the loop.
\<close>

type_synonym ('err, 'te) encode_return = "('err + rtp_packet list) \<times> 'te Encoder"

definition Encode ::
  "(byte list list \<Rightarrow> 'err + bool) \<Rightarrow> (nat \<Rightarrow> byte list) \<Rightarrow> ('te \<Rightarrow> int \<Rightarrow> 32 word)
     \<Rightarrow> 'te Encoder \<Rightarrow> byte list list \<Rightarrow> int \<Rightarrow> (panic + ('err, 'te) encode_return) option" where
  "Encode ContainsKeyFrame LEB128Marshal timeEncode e obus pts =
     (case ContainsKeyFrame obus of
        Inl err \<Rightarrow> Some (Inr (Inl err, e))
      | Inr isKeyFrame \<Rightarrow>
          (case timeEncoder e of
             None \<Rightarrow> Some (Inl NilDereference)
           | Some te \<Rightarrow>
               (case EncoderSSRC e of
                  None \<Rightarrow> Some (Inl NilDereference)
                | Some ssrc \<Rightarrow>
                    (let ts = timeEncode te pts;
                         st0 = createNewPacket ts ssrc False
                                 \<lparr>enc = e, packets = [], curPayloadLen = 0\<rparr>
                     in case obus_loop LEB128Marshal ts ssrc st0 obus of
                          None \<Rightarrow> None
                        | Some st1 \<Rightarrow>
                            (let st2 = finalizeCurPacket False st1;
                                 ps2 = (if isKeyFrame
                                        then (packets st2)[0 := or_Payload0 (push_bit 3 1) (packets st2 ! 0)]
                                        else packets st2);
                                 ps3 = ps2[length ps2 - 1 := (ps2 ! (length ps2 - 1))\<lparr>Marker := True\<rparr>]
                             in Some (Inr (Inr ps3, enc st2)))))))"

text \<open>
  Stand-ins for the functions of other packages in concrete instances: the unsigned
  LEB128 encoding (7 bits a byte, low bits first, the top bit set on every byte but the
  last) for \<^verbatim>\<open>av1.LEB128Marshal\<close>, a keyframe test that looks for an OBU starting with the
  byte \<open>0x0A\<close>, and a 90 kHz clock counting from the initial timestamp.
\<close>

function example_LEB128Marshal :: "nat \<Rightarrow> byte list" where
  "example_LEB128Marshal v =
     (let curbyte = (word_of_nat v :: byte) AND 0x7F
      in if v div 128 \<le> 0 then [curbyte]
         else (curbyte OR 0x80) # example_LEB128Marshal (v div 128))"
  by pat_completeness auto
termination
  by (relation "measure id") auto

definition example_ContainsKeyFrame :: "byte list list \<Rightarrow> unit + bool" where
  "example_ContainsKeyFrame obus =
     (if obus = [] then Inl () else Inr (list_ex (\<lambda>obu. obu \<noteq> [] \<and> hd obu = 0x0A) obus))"

definition example_timeEncode :: "32 word \<Rightarrow> int \<Rightarrow> 32 word" where
  "example_timeEncode initial pts = initial + word_of_int (pts * 90000 div 1000000000)"

definition example_NewEncoder :: "int \<Rightarrow> 32 word \<Rightarrow> 32 word" where
  "example_NewEncoder clockRate initial = initial"

definition example_Encoder :: "int \<Rightarrow> 32 word Encoder" where
  \<comment> \<open>an initialised encoder with a given maximum payload size\<close>
  "example_Encoder maxSize =
     Encoder_Init 0 0 0 example_NewEncoder
       \<lparr>EncoderPayloadType = 96, EncoderSSRC = Some 0x1234, InitialSequenceNumber = Some 0xFFFF,
        InitialTimestamp = Some 1000, PayloadMaxSize = maxSize, sequenceNumber = 0,
        timeEncoder = None\<rparr>"

subsection \<open>The steps of the inner loop, named\<close>

definition new_packet :: "'te Encoder \<Rightarrow> 32 word \<Rightarrow> 32 word \<Rightarrow> bool \<Rightarrow> rtp_packet" where
  "new_packet e ts ssrc z =
     \<lparr>Version = rtpVersion, Marker = False, PayloadType = EncoderPayloadType e,
      SequenceNumber = sequenceNumber e, Timestamp = ts, SSRC = ssrc,
      Payload = [if z then push_bit 7 1 else 0]\<rparr>"

definition fits :: "'te encode_state \<Rightarrow> byte list \<Rightarrow> bool" where
  "fits st obu = (int (length obu) + 2 \<le> PayloadMaxSize (enc st) - curPayloadLen st)"

definition place_whole :: "(nat \<Rightarrow> byte list) \<Rightarrow> 'te encode_state \<Rightarrow> byte list \<Rightarrow> 'te encode_state" where
  "place_whole LEB128Marshal st obu =
     (update_curPacket (\<lambda>p. p\<lparr>Payload := Payload p @ LEB128Marshal (length obu) @ obu\<rparr>) st)
       \<lparr>curPayloadLen := curPayloadLen st + int (length (LEB128Marshal (length obu))) + int (length obu)\<rparr>"

definition place_fragment :: "(nat \<Rightarrow> byte list) \<Rightarrow> 'te encode_state \<Rightarrow> byte list \<Rightarrow> 'te encode_state" where
  "place_fragment LEB128Marshal st obu =
     (let n = nat (PayloadMaxSize (enc st) - curPayloadLen st - 2)
      in update_curPacket (\<lambda>p. p\<lparr>Payload := Payload p @ LEB128Marshal n @ take n obu\<rparr>) st)"

definition next_packet :: "32 word \<Rightarrow> 32 word \<Rightarrow> 'te encode_state \<Rightarrow> 'te encode_state" where
  "next_packet ts ssrc st = createNewPacket ts ssrc True (finalizeCurPacket True st)"

subsection \<open>Invariants of the packetizer loops\<close>

definition indexed_all :: "(nat \<Rightarrow> 'a \<Rightarrow> bool) \<Rightarrow> 'a list \<Rightarrow> bool" where
  "indexed_all R xs = (\<forall>i<length xs. R i (xs ! i))"

definition hdr_ok :: "'te Encoder \<Rightarrow> 32 word \<Rightarrow> 32 word \<Rightarrow> nat \<Rightarrow> rtp_packet \<Rightarrow> bool" where
  "hdr_ok e0 ts ssrc i p =
     (Version p = 2 \<and> PayloadType p = EncoderPayloadType e0 \<and>
      SequenceNumber p = sequenceNumber e0 + word_of_nat i \<and> Timestamp p = ts \<and> SSRC p = ssrc)"

definition hdr_inv :: "'te Encoder \<Rightarrow> 32 word \<Rightarrow> 32 word \<Rightarrow> 'te encode_state \<Rightarrow> bool" where
  "hdr_inv e0 ts ssrc st =
     (packets st \<noteq> [] \<and>
      enc st = e0\<lparr>sequenceNumber := sequenceNumber e0 + word_of_nat (length (packets st))\<rparr> \<and>
      indexed_all (hdr_ok e0 ts ssrc) (packets st))"

definition first_state :: "'te Encoder \<Rightarrow> 32 word \<Rightarrow> 32 word \<Rightarrow> 'te encode_state" where
  "first_state e ts ssrc = createNewPacket ts ssrc False \<lparr>enc = e, packets = [], curPayloadLen = 0\<rparr>"

definition mark_keyframe :: "bool \<Rightarrow> rtp_packet list \<Rightarrow> rtp_packet list" where
  "mark_keyframe isKeyFrame ps =
     (if isKeyFrame then ps[0 := or_Payload0 (push_bit 3 1) (ps ! 0)] else ps)"

definition mark_last :: "rtp_packet list \<Rightarrow> rtp_packet list" where
  "mark_last ps = ps[length ps - 1 := (ps ! (length ps - 1))\<lparr>Marker := True\<rparr>]"

definition size_inv :: "int \<Rightarrow> 'te encode_state \<Rightarrow> bool" where
  "size_inv m st =
     (packets st \<noteq> [] \<and> PayloadMaxSize (enc st) = m \<and> 1 \<le> curPayloadLen st \<and>
      curPayloadLen st = int (length (Payload (last (packets st)))) \<and>
      (\<forall>p\<in>set (packets st). int (length (Payload p)) \<le> m))"

definition full_inv :: "int \<Rightarrow> 'te encode_state \<Rightarrow> bool" where
  "full_inv m st =
     (packets st \<noteq> [] \<and> PayloadMaxSize (enc st) = m \<and> curPayloadLen st = 1 \<and>
      length (Payload (last (packets st))) = 1 \<and>
      (\<forall>p\<in>set (butlast (packets st)). int (length (Payload p)) = m))"

definition flags_ok :: "nat \<Rightarrow> rtp_packet \<Rightarrow> bool" where
  "flags_ok i p =
     (Payload p \<noteq> [] \<and> \<not> Marker p \<and> \<not> bit (Payload p ! 0) 3 \<and>
      (bit (Payload p ! 0) 7 \<longleftrightarrow> 0 < i))"

definition flag_inv :: "'te encode_state \<Rightarrow> bool" where
  "flag_inv st =
     (packets st \<noteq> [] \<and> indexed_all flags_ok (packets st) \<and>
      (\<forall>p\<in>set (butlast (packets st)). bit (Payload p ! 0) 6) \<and>
      \<not> bit (Payload (last (packets st)) ! 0) 6)"

section \<open>Properties of the NAL classifier\<close>

declare stapA_loop.simps [simp del] stap_entries.simps [simp del]

text \<open>\<^verbatim>\<open>uint16(b0)<<8 | uint16(b1)\<close> reads two bytes as a big-endian number.\<close>

lemma be16_add: "be16 a b = push_bit 8 (ucast a) + ucast b"
proof -
  have "push_bit 8 (ucast a :: 16 word) + ucast b = push_bit 8 (ucast a) OR ucast b"
  proof (rule disjunctive_add)
    fix n
    show "\<not> bit (push_bit 8 (ucast a :: 16 word)) n \<or> \<not> bit (ucast b :: 16 word) n"
      by (cases "n < 8") (auto simp: bit_simps dest: bit_imp_le_length)
  qed
  then show ?thesis by (simp add: be16_def)
qed

lemma unat_be16: "unat (be16 a b) = 256 * unat a + unat b"
proof -
  have a: "unat a < 256" using unsigned_less[of a, where 'a = nat] by simp
  have b: "unat b < 256" using unsigned_less[of b, where 'a = nat] by simp
  have ua: "unat (ucast a :: 16 word) = unat a" "unat (ucast b :: 16 word) = unat b"
    using a b by (simp_all add: unsigned_ucast_eq take_bit_nat_eq_self)
  have "unat (push_bit 8 (ucast a :: 16 word)) = 256 * unat a"
    using a ua by (simp add: push_bit_eq_mult unat_word_ariths)
  with a b ua show ?thesis
    by (simp add: be16_add unat_word_ariths)
qed

lemma stap_entries_Cons:
  "stap_entries (hi # lo # rest) =
     (let n = unat (be16 hi lo)
      in if n = 0 \<or> length rest < n then [] else take n rest # stap_entries (drop n rest))"
  by (subst stap_entries.simps) (simp add: unat_be16 Let_def)

text \<open>The loop never panics, and answers whether some listed entry is a keyframe unit.\<close>

lemma stapA_loop_entries:
  "stapA_loop payload = Inr (list_ex (\<lambda>e. unit_type e = 5) (stap_entries payload))"
proof (induction payload rule: stapA_loop.induct)
  case (1 payload)
  show ?case
  proof (cases payload)
    case Nil
    then show ?thesis by (simp add: stapA_loop.simps stap_entries.simps)
  next
    case (Cons hi t)
    note outer = Cons
    show ?thesis
    proof (cases t)
      case Nil
      with outer show ?thesis by (simp add: stapA_loop.simps stap_entries.simps)
    next
      case (Cons lo rest)
      define n where "n = unat (be16 hi lo)"
      have p: "payload = hi # lo # rest" using outer Cons by simp
      show ?thesis
      proof (cases "be16 hi lo = 0 \<or> length rest < n")
        case True
        then have "be16 hi lo = 0 \<or> length rest < unat (be16 hi lo)" "n = 0 \<or> length rest < n"
          by (auto simp: n_def unat_eq_zero)
        then show ?thesis
          by (subst stapA_loop.simps)
             (auto simp: p stap_entries_Cons n_def[symmetric] index_def slice_from_def)
      next
        case False
        then have n: "0 < n" "n \<le> length rest"
          by (auto simp: n_def unat_gt_0)
        then obtain r0 rs where rest: "rest = r0 # rs" by (cases rest) auto
        have hd: "take n rest ! 0 = r0" "hd (take n rest) = r0"
          using n rest by (cases n; simp)+
        show ?thesis
        proof (cases "(r0 AND 0x1F) = NALUTypeIDR")
          case True
          with False n hd show ?thesis
            by (subst stapA_loop.simps)
               (simp add: p stap_entries_Cons n_def[symmetric] index_def slice_from_def slice_to_def
                  unit_type_def NALUTypeIDR_def)
        next
          case idr: False
          have ih: "stapA_loop (drop n rest) =
                      Inr (list_ex (\<lambda>e. unit_type e = 5) (stap_entries (drop n rest)))"
            using False n hd idr
            by (intro 1[where bd="drop n rest" and bc = "take n rest" and bb = rest
                          and b=hi and ba=lo and be=r0 and x="be16 hi lo"])
               (simp_all add: p n_def[symmetric] index_def slice_from_def slice_to_def)
          from False n hd idr show ?thesis
            by (subst stapA_loop.simps)
               (simp add: ih p stap_entries_Cons n_def[symmetric] index_def slice_from_def slice_to_def
                  unit_type_def NALUTypeIDR_def)
        qed
      qed
    qed
  qed
qed

lemma drop_bit7_byte: "drop_bit 7 (p::byte) = (if bit p 7 then 1 else 0)"
proof (rule bit_word_eqI)
  fix n assume "n < LENGTH(8)"
  have "bit p (7 + n) \<Longrightarrow> n = 0"
    using bit_imp_le_length[of p "7 + n"] by simp
  then show "bit (drop_bit 7 p) n = bit (if bit p 7 then 1 else 0 :: byte) n"
    by (cases "n = 0") (auto simp add: bit_drop_bit_eq bit_1_iff)
qed

lemma start_bit: "(drop_bit 7 (p::byte) \<noteq> 1) = (\<not> bit p 7)"
  by (simp add: drop_bit7_byte)

lemma contains_form:
  "rtpH264ContainsIDR pkt =
     Inr (if Payload pkt = [] then False else contains_keyframe_spec (Payload pkt))"
proof (cases "Payload pkt")
  case Nil
  then show ?thesis by (simp add: rtpH264ContainsIDR_def)
next
  case (Cons p0 rest)
  have i0: "index (Payload pkt) 0 = Inr p0" by (simp add: Cons index_def)
  have s1: "slice_from (Payload pkt) (Suc 0) = Inr rest" by (simp add: Cons slice_from_def)
  have ut: "unit_type (Payload pkt) = (p0 AND 0x1F)" "Payload pkt \<noteq> []"
    by (simp_all add: Cons unit_type_def)
  have tl: "tl (Payload pkt) = rest" by (simp add: Cons)
  consider (idr) "(p0 AND 0x1F) = 5" | (stap) "(p0 AND 0x1F) = 24" | (fu) "(p0 AND 0x1F) = 28"
    | (other) "(p0 AND 0x1F) \<noteq> 5" "(p0 AND 0x1F) \<noteq> 24" "(p0 AND 0x1F) \<noteq> 28"
    by blast
  then show ?thesis
  proof cases
    case idr
    then show ?thesis
      by (simp add: rtpH264ContainsIDR_def contains_keyframe_spec_def i0 ut NALUTypeIDR_def)
  next
    case stap
    then show ?thesis
      by (simp add: rtpH264ContainsIDR_def contains_keyframe_spec_def i0 s1 ut tl
          NALUTypeIDR_def stapA_loop_entries)
  next
    case fu
    show ?thesis
    proof (cases rest)
      case Nil
      have "length (Payload pkt) < 2" "\<not> 2 \<le> length (Payload pkt)"
        using Nil \<open>Payload pkt = p0 # rest\<close> by simp_all
      with fu show ?thesis
        by (simp add: rtpH264ContainsIDR_def contains_keyframe_spec_def i0 ut NALUTypeIDR_def)
    next
      case (Cons p1 rest')
      have i1: "index (Payload pkt) (Suc 0) = Inr p1" "Payload pkt ! (Suc 0) = p1"
        "2 \<le> length (Payload pkt)" "\<not> length (Payload pkt) < 2" "Payload pkt \<noteq> []"
        using \<open>Payload pkt = p0 # rest\<close> Cons by (simp_all add: index_def)
      from fu show ?thesis
        by (simp add: rtpH264ContainsIDR_def contains_keyframe_spec_def i0 i1 ut
            NALUTypeIDR_def start_bit)
    qed
  next
    case other
    then show ?thesis
      by (simp add: rtpH264ContainsIDR_def contains_keyframe_spec_def i0 ut NALUTypeIDR_def)
  qed
qed

lemma stap_entries_violation: "bound_violation t \<Longrightarrow> stap_entries t = []"
  by (cases t rule: bound_violation.cases) (auto simp: stap_entries.simps)

lemma stap_entries_entry:
  assumes "u \<noteq> []" "length u < 65536"
  shows "stap_entries (stap_entry u @ t) = u # stap_entries t"
proof -
  define hi :: byte where "hi = word_of_nat (length u div 256)"
  define lo :: byte where "lo = word_of_nat (length u mod 256)"
  have "unat hi = length u div 256" "unat lo = length u mod 256"
    using assms(2) by (simp_all add: hi_def lo_def unat_of_nat)
  then have n: "unat (be16 hi lo) = length u" by (simp add: unat_be16)
  have "stap_entries (hi # lo # (u @ t)) = u # stap_entries t"
    using assms(1) by (simp add: stap_entries_Cons n)
  then show ?thesis by (simp add: stap_entry_def hi_def lo_def)
qed

lemma stap_entries_concat:
  assumes "\<forall>u\<in>set us. u \<noteq> [] \<and> length u < 65536"
  shows "stap_entries (concat (map stap_entry us) @ t) = us @ stap_entries t"
  using assms by (induction us) (simp_all add: stap_entries_entry)

text \<open>
  C8. For a non-empty payload the classifier computes the case split on the low 5 bits of
  the first byte: type 24 answers whether the entry walk lists an entry of type 5 before
  any bound violation, type 28 answers whether a second byte exists with its top bit set
  and its low 5 bits equal to 5, and every other type answers whether the type is 5.
\<close>

theorem rtpH264ContainsIDR_case_split:
  "Payload pkt \<noteq> [] \<Longrightarrow>
     rtpH264ContainsIDR pkt = Inr (contains_keyframe_spec (Payload pkt))"
  by (simp add: contains_form)

theorem rtpH264ContainsIDR_case_split_witness:
  "Payload (payload_packet [0x18, 0, 1, 0x61, 0, 2, 0x65, 0]) \<noteq> [] \<and>
   rtpH264ContainsIDR (payload_packet [0x18, 0, 1, 0x61, 0, 2, 0x65, 0]) = Inr True \<and>
   rtpH264ContainsIDR (payload_packet [0x7C, 0x85]) = Inr True \<and>
   rtpH264ContainsIDR (payload_packet [0x7C, 0x45]) = Inr False \<and>
   rtpH264ContainsIDR (payload_packet [0x65, 0x88]) = Inr True \<and>
   rtpH264ContainsIDR (payload_packet [0x61, 0x88]) = Inr False"
  using rtpH264ContainsIDR_case_split [of "payload_packet [0x18, 0, 1, 0x61, 0, 2, 0x65, 0]"]
    rtpH264ContainsIDR_case_split [of "payload_packet [0x7C, 0x85]"]
    rtpH264ContainsIDR_case_split [of "payload_packet [0x7C, 0x45]"]
    rtpH264ContainsIDR_case_split [of "payload_packet [0x65, 0x88]"]
    rtpH264ContainsIDR_case_split [of "payload_packet [0x61, 0x88]"]
  by (simp add: payload_packet_def contains_keyframe_spec_def unit_type_def
      stap_entries.simps be16_def)

text \<open>
  C9. The classifier returns a boolean on every payload, never a panic. It answers false on
  an empty payload, on a fragmentation payload (type 28) of one byte, and on an aggregation
  payload (type 24) whose entries, none of type 5, are followed by a bound violation: one
  byte left, a size of zero, or a size larger than what is left.
\<close>

theorem rtpH264ContainsIDR_total:
  "(\<exists>b. rtpH264ContainsIDR pkt = Inr b) \<and>
   (Payload pkt = [] \<longrightarrow> rtpH264ContainsIDR pkt = Inr False) \<and>
   (\<forall>p0. Payload pkt = [p0] \<and> (p0 AND 0x1F) = 28 \<longrightarrow> rtpH264ContainsIDR pkt = Inr False) \<and>
   (\<forall>p0 us t. Payload pkt = p0 # concat (map stap_entry us) @ t \<and> (p0 AND 0x1F) = 24 \<and>
       (\<forall>u\<in>set us. u \<noteq> [] \<and> length u < 65536 \<and> unit_type u \<noteq> 5) \<and> bound_violation t
       \<longrightarrow> rtpH264ContainsIDR pkt = Inr False)"
proof (intro conjI allI impI)
  show "\<exists>b. rtpH264ContainsIDR pkt = Inr b" by (simp add: contains_form)
next
  assume "Payload pkt = []"
  then show "rtpH264ContainsIDR pkt = Inr False" by (simp add: contains_form)
next
  fix p0 assume "Payload pkt = [p0] \<and> (p0 AND 0x1F) = 28"
  then show "rtpH264ContainsIDR pkt = Inr False"
    by (simp add: contains_form contains_keyframe_spec_def unit_type_def)
next
  fix p0 us t
  assume a: "Payload pkt = p0 # concat (map stap_entry us) @ t \<and> (p0 AND 0x1F) = 24 \<and>
       (\<forall>u\<in>set us. u \<noteq> [] \<and> length u < 65536 \<and> unit_type u \<noteq> 5) \<and> bound_violation t"
  then have "stap_entries (concat (map stap_entry us) @ t) = us"
    by (simp add: stap_entries_concat stap_entries_violation)
  moreover have "\<not> list_ex (\<lambda>e. unit_type e = 5) us"
    using a by (simp add: list_ex_iff)
  ultimately show "rtpH264ContainsIDR pkt = Inr False"
    using a by (simp add: contains_form contains_keyframe_spec_def unit_type_def)
qed

theorem rtpH264ContainsIDR_total_witness:
  "rtpH264ContainsIDR (payload_packet []) = Inr False \<and>
   rtpH264ContainsIDR (payload_packet [0x1C]) = Inr False \<and>
   rtpH264ContainsIDR (payload_packet [0x18, 0, 1, 0x61, 0, 5, 0x65]) = Inr False"
proof -
  have "Payload (payload_packet [0x18, 0, 1, 0x61, 0, 5, 0x65]) =
          0x18 # concat (map stap_entry [[0x61]]) @ [0, 5, 0x65] \<and>
        ((0x18 :: byte) AND 0x1F) = 24 \<and>
        (\<forall>u\<in>set [[0x61 :: byte]]. u \<noteq> [] \<and> length u < 65536 \<and> unit_type u \<noteq> 5) \<and>
        bound_violation [0, 5, 0x65]"
    by (simp add: payload_packet_def stap_entry_def unit_type_def)
  with rtpH264ContainsIDR_total [of "payload_packet [0x18, 0, 1, 0x61, 0, 5, 0x65]"]
  have "rtpH264ContainsIDR (payload_packet [0x18, 0, 1, 0x61, 0, 5, 0x65]) = Inr False"
    by blast
  moreover have "rtpH264ContainsIDR (payload_packet []) = Inr False"
    using rtpH264ContainsIDR_total [of "payload_packet []"] by (simp add: payload_packet_def)
  moreover have "rtpH264ContainsIDR (payload_packet [0x1C]) = Inr False"
    using rtpH264ContainsIDR_total [of "payload_packet [0x1C]"] by (simp add: payload_packet_def)
  ultimately show ?thesis by simp
qed

section \<open>Properties of the fragment reassembler\<close>

lemma joinFragments_loop_concat:
  "n + length (concat ps) \<le> length ret \<Longrightarrow>
   joinFragments_loop ps ret n = take n ret @ concat ps @ drop (n + length (concat ps)) ret"
proof (induction ps arbitrary: ret n)
  case Nil
  then show ?case by simp
next
  case (Cons p ps)
  have k: "min (length ret - n) (length p) = length p" using Cons.prems by simp
  have "joinFragments_loop (p # ps) ret n =
        joinFragments_loop ps (take n ret @ p @ drop (length p) (drop n ret)) (n + length p)"
    by (simp add: copy_def Let_def k)
  also have "\<dots> = take (n + length p) (take n ret @ p @ drop (length p) (drop n ret)) @ concat ps @
      drop (n + length p + length (concat ps)) (take n ret @ p @ drop (length p) (drop n ret))"
    using Cons.prems by (intro Cons.IH) simp
  also have "\<dots> = take n ret @ concat (p # ps) @ drop (n + length (concat (p # ps))) ret"
    using Cons.prems by (simp add: min_absorb2 add.commute add.left_commute)
  finally show ?case .
qed

lemma joinFragments_exact:
  "sz = int (length (concat ps)) \<Longrightarrow> joinFragments ps sz = Inr (concat ps)"
  by (simp add: joinFragments_def joinFragments_loop_concat)

lemma loop_post_step:
  assumes ih: "\<And>U F d buf frames y. loop U F d buf frames = Some y \<Longrightarrow> loop_post U F d buf frames y"
    and body: "(case Unmarshal buf of
        None \<Rightarrow> Some (Inr (Inl ErrFrameHeader, d))
      | Some h \<Rightarrow>
          if int (length buf) \<ge> FrameLen h then
            if FrameLen h < 0 then Some (Inl SliceBoundsOutOfRange)
            else if length (drop (nat (FrameLen h)) buf) = 0
              then Some (Inr (Inr (frames @ [take (nat (FrameLen h)) buf]), d))
              else loop Unmarshal FrameLen d (drop (nat (FrameLen h)) buf)
                     (frames @ [take (nat (FrameLen h)) buf])
          else if length frames \<noteq> 0 then Some (Inr (Inl ErrInvalidPacket, d))
          else Some (Inr (Inl ErrMorePacketsNeeded,
                 d\<lparr>fragments := fragments d @ [buf],
                   fragmentsSize := int (length buf),
                   fragmentsExpected := FrameLen h - int (length buf)\<rparr>))) = Some y"
  shows "loop_post Unmarshal FrameLen d buf frames y"
proof (cases "Unmarshal buf")
  case None
  with body show ?thesis by (auto simp: loop_post_def)
next
  case (Some h)
  show ?thesis
  proof (cases "FrameLen h \<le> int (length buf)")
    case False
    with body Some show ?thesis by (cases "frames = []") (auto simp: loop_post_def)
  next
    case le: True
    show ?thesis
    proof (cases "FrameLen h < 0")
      case True
      with body Some le show ?thesis by (auto simp: loop_post_def)
    next
      case False
      show ?thesis
      proof (cases "length (drop (nat (FrameLen h)) buf) = 0")
        case True
        with body Some False le show ?thesis by (auto simp: loop_post_def)
      next
        case nonempty: False
        with body Some False le
        have "loop Unmarshal FrameLen d (drop (nat (FrameLen h)) buf)
                (frames @ [take (nat (FrameLen h)) buf]) = Some y"
          by simp
        from ih[OF this] show ?thesis by (auto simp: loop_post_def)
      qed
    qed
  qed
qed

lemma frames_loop_post:
  "frames_loop Unmarshal FrameLen d buf frames = Some y \<Longrightarrow> loop_post Unmarshal FrameLen d buf frames y"
  by (rule frames_loop.raw_induct[where P = loop_post]) (rule loop_post_step, assumption+)

lemma Decode_short:
  "length (Payload pkt) < 5 \<Longrightarrow>
   Decode Unmarshal FrameLen timeDecode d pkt = Some (Inr (Inl ErrPayloadTooShort, reset_fragments d))"
  by (simp add: Decode_def reset_fragments_def)

lemma Decode_mbz:
  "5 \<le> length (Payload pkt) \<Longrightarrow> be16 (Payload pkt ! 0) (Payload pkt ! 1) \<noteq> 0 \<Longrightarrow>
   Decode Unmarshal FrameLen timeDecode d pkt =
     Some (Inr (Inl (ErrInvalidMBZ (be16 (Payload pkt ! 0) (Payload pkt ! 1))), reset_fragments d))"
  by (simp add: Decode_def reset_fragments_def)

lemma Decode_mismatch:
  assumes "5 \<le> length (Payload pkt)" "be16 (Payload pkt ! 0) (Payload pkt ! 1) = 0"
    "be16 (Payload pkt ! 2) (Payload pkt ! 3) \<noteq> 0"
    "uint (be16 (Payload pkt ! 2) (Payload pkt ! 3)) \<noteq> fragmentsSize d"
  shows "Decode Unmarshal FrameLen timeDecode d pkt =
     (if \<not> firstPacketReceived d then Some (Inr (Inl ErrNonStartingPacketAndNoPrevious, d))
      else Some (Inr (Inl (ErrUnexpectedOffset (be16 (Payload pkt ! 2) (Payload pkt ! 3)) 0),
                      reset_fragments d)))"
  using assms by (simp add: Decode_def reset_fragments_def)

lemma Decode_start:
  assumes "5 \<le> length (Payload pkt)" "be16 (Payload pkt ! 0) (Payload pkt ! 1) = 0"
    "be16 (Payload pkt ! 2) (Payload pkt ! 3) = 0"
    "Decode Unmarshal FrameLen timeDecode d pkt = Some (Inr (r, d'))"
  shows "start_post Unmarshal FrameLen timeDecode d pkt r d'"
proof -
  define d1 where "d1 = d\<lparr>fragments := [], fragmentsSize := 0, firstPacketReceived := True\<rparr>"
  define buf where "buf = drop 4 (Payload pkt)"
  have D: "Decode Unmarshal FrameLen timeDecode d pkt =
            (case frames_loop Unmarshal FrameLen d1 buf [] of
                  None \<Rightarrow> None
                | Some (Inl p) \<Rightarrow> Some (Inl p)
                | Some (Inr (Inl e, d2)) \<Rightarrow> Some (Inr (Inl e, d2))
                | Some (Inr (Inr frames, d2)) \<Rightarrow> return_frames timeDecode d2 pkt frames)"
    using assms(1-3) by (simp add: Decode_def d1_def buf_def)
  from assms(4) D obtain y where y: "frames_loop Unmarshal FrameLen d1 buf [] = Some y"
    by (cases "frames_loop Unmarshal FrameLen d1 buf []") auto
  from frames_loop_post[OF y]
  consider (panic) p where "y = Inl p" | (frames) fs where "y = Inr (Inr fs, d1)"
    | (hdr) "y = Inr (Inl ErrFrameHeader, d1)" | (inv) "y = Inr (Inl ErrInvalidPacket, d1)"
    | (more) h where "Unmarshal buf = Some h" "int (length buf) < FrameLen h"
        "y = Inr (Inl ErrMorePacketsNeeded,
                 d1\<lparr>fragments := fragments d1 @ [buf], fragmentsSize := int (length buf),
                   fragmentsExpected := FrameLen h - int (length buf)\<rparr>)"
    unfolding loop_post_def by blast
  then show ?thesis
  proof cases
    case panic
    with assms(4) D y show ?thesis by simp
  next
    case frames
    with assms(4) D y have rf: "return_frames timeDecode d1 pkt fs = Some (Inr (r, d'))" by simp
    then obtain td where td: "timeDecoder d = Some td"
      by (cases "timeDecoder d") (auto simp: return_frames_def d1_def)
    obtain pts td' where t: "timeDecode td (Timestamp pkt) = (pts, td')"
      by (cases "timeDecode td (Timestamp pkt)") auto
    from rf td t have "r = Inr (fs, pts)" "d' = d1\<lparr>timeDecoder := Some td'\<rparr>"
      by (auto simp: return_frames_def d1_def)
    with td t show ?thesis
      unfolding start_post_def Let_def d1_def[symmetric] buf_def[symmetric] by blast
  next
    case hdr
    with assms(4) D y show ?thesis
      unfolding start_post_def Let_def d1_def[symmetric] buf_def[symmetric] by simp
  next
    case inv
    with assms(4) D y show ?thesis
      unfolding start_post_def Let_def d1_def[symmetric] buf_def[symmetric] by simp
  next
    case more
    have "d1\<lparr>fragments := fragments d1 @ [buf], fragmentsSize := int (length buf),
                   fragmentsExpected := FrameLen h - int (length buf)\<rparr> =
          d1\<lparr>fragments := [buf], fragmentsSize := int (length buf),
                   fragmentsExpected := FrameLen h - int (length buf)\<rparr>"
      by (simp add: d1_def)
    with more assms(4) D y show ?thesis
      unfolding start_post_def Let_def d1_def[symmetric] buf_def[symmetric] by auto
  qed
qed

lemma Decode_continue:
  assumes "5 \<le> length (Payload pkt)" "be16 (Payload pkt ! 0) (Payload pkt ! 1) = 0"
    "be16 (Payload pkt ! 2) (Payload pkt ! 3) \<noteq> 0"
    "uint (be16 (Payload pkt ! 2) (Payload pkt ! 3)) = fragmentsSize d"
    "Decode Unmarshal FrameLen timeDecode d pkt = Some (Inr (r, d'))"
  shows "continue_post timeDecode d pkt r d'"
proof -
  define bl where "bl = int (length (Payload pkt)) - 4"
  define d1 where "d1 = d\<lparr>fragmentsSize := fragmentsSize d + bl,
                 fragmentsExpected := fragmentsExpected d - bl\<rparr>"
  have bl: "int (length (drop 4 (Payload pkt))) = bl" using assms(1) by (simp add: bl_def)
  consider (big) "fragmentsExpected d < bl" | (more) "bl < fragmentsExpected d"
    | (complete) "fragmentsExpected d = bl" by linarith
  then show ?thesis
  proof cases
    case big
    with assms have "r = Inl ErrFragmentTooBig" "d' = reset_fragments d1"
      by (auto simp: Decode_def Let_def bl_def d1_def reset_fragments_def)
    with big show ?thesis
      unfolding continue_post_def Let_def bl_def[symmetric] d1_def[symmetric] by simp
  next
    case more
    with assms have "r = Inl ErrMorePacketsNeeded"
      "d' = d1\<lparr>fragments := fragments d @ [drop 4 (Payload pkt)]\<rparr>"
      by (auto simp: Decode_def Let_def bl_def d1_def)
    with more show ?thesis
      unfolding continue_post_def Let_def bl_def[symmetric] d1_def[symmetric] by simp
  next
    case complete
    define fr where "fr = fragments d @ [drop 4 (Payload pkt)]"
    have D: "Decode Unmarshal FrameLen timeDecode d pkt =
          (case joinFragments fr (fragmentsSize d + bl) of
                         Inl p \<Rightarrow> Some (Inl p)
                       | Inr frame \<Rightarrow>
                           return_frames timeDecode
                             (reset_fragments (d1\<lparr>fragments := fr\<rparr>)) pkt [frame])"
      using assms(1-4) complete
      by (simp add: Decode_def Let_def bl_def d1_def fr_def reset_fragments_def split: sum.split)
    from assms(5) D obtain frame where j: "joinFragments fr (fragmentsSize d + bl) = Inr frame"
      by (cases "joinFragments fr (fragmentsSize d + bl)") auto
    with assms(5) D have rf: "return_frames timeDecode
                             (reset_fragments (d1\<lparr>fragments := fr\<rparr>)) pkt [frame] = Some (Inr (r, d'))"
      by simp
    then obtain td where td: "timeDecoder d = Some td"
      by (cases "timeDecoder d") (auto simp: return_frames_def d1_def reset_fragments_def)
    obtain pts td' where t: "timeDecode td (Timestamp pkt) = (pts, td')"
      by (cases "timeDecode td (Timestamp pkt)") auto
    from rf td t have "r = Inr ([frame], pts)" "d' = reset_fragments (d1\<lparr>timeDecoder := Some td'\<rparr>)"
      by (auto simp: return_frames_def d1_def reset_fragments_def)
    with td t j complete show ?thesis
      unfolding continue_post_def Let_def bl_def[symmetric] d1_def[symmetric] fr_def[symmetric]
      by blast
  qed
qed

text \<open>
  C2. Whenever \<^verbatim>\<open>Decode\<close> returns an error of the classes MalformedInput (payload too
  short, reserved bytes not zero, frame header not parsed, truncated frame behind a
  complete one), OutOfSequence or Oversize, the decoder it leaves has no pending fragment
  and an accumulated size of zero, as the fresh decoder has.
\<close>

theorem Decode_error_resets:
  assumes "Decode Unmarshal FrameLen timeDecode d pkt = Some (Inr (Inl e, d'))"
    and "class_of e \<in> {MalformedInput, OutOfSequence, Oversize}"
  shows "reassembly_empty d' \<and> fragments d' = fragments (new_Decoder :: 'td Decoder) \<and>
         fragmentsSize d' = fragmentsSize (new_Decoder :: 'td Decoder)"
proof -
  have "reassembly_empty d'"
  proof (cases "length (Payload pkt) < 5")
    case True
    with assms(1) show ?thesis
      by (auto simp: Decode_short reset_fragments_def reassembly_empty_def)
  next
    case False
    then have len: "5 \<le> length (Payload pkt)" by simp
    show ?thesis
    proof (cases "be16 (Payload pkt ! 0) (Payload pkt ! 1) = 0")
      case False
      with len assms(1) show ?thesis
        by (auto simp: Decode_mbz reset_fragments_def reassembly_empty_def)
    next
      case mbz: True
      show ?thesis
      proof (cases "be16 (Payload pkt ! 2) (Payload pkt ! 3) = 0")
        case True
        from Decode_start[OF len mbz True assms(1)] assms(2) show ?thesis
          by (auto simp: start_post_def Let_def reassembly_empty_def)
      next
        case off: False
        show ?thesis
        proof (cases "uint (be16 (Payload pkt ! 2) (Payload pkt ! 3)) = fragmentsSize d")
          case True
          from Decode_continue[OF len mbz off True assms(1)] assms(2) show ?thesis
            by (auto simp: continue_post_def Let_def reassembly_empty_def reset_fragments_def)
        next
          case False
          with len mbz off assms show ?thesis
            by (auto simp: Decode_mismatch reset_fragments_def reassembly_empty_def split: if_splits)
        qed
      qed
    qed
  qed
  then show ?thesis by (simp add: reassembly_empty_def new_Decoder_def)
qed

theorem Decode_error_resets_witness:
  "Decode example_Unmarshal example_FrameLen example_timeDecode example_pending
     (payload_packet [0, 0]) =
     Some (Inr (Inl ErrPayloadTooShort, example_pending\<lparr>fragments := [], fragmentsSize := 0\<rparr>)) \<and>
   class_of ErrPayloadTooShort \<in> {MalformedInput, OutOfSequence, Oversize} \<and>
   reassembly_empty (example_pending\<lparr>fragments := [], fragmentsSize := 0\<rparr>) \<and>
   \<not> reassembly_empty example_pending"
proof -
  have D: "Decode example_Unmarshal example_FrameLen example_timeDecode example_pending
     (payload_packet [0, 0]) =
     Some (Inr (Inl ErrPayloadTooShort, example_pending\<lparr>fragments := [], fragmentsSize := 0\<rparr>))"
    by (simp add: Decode_def payload_packet_def)
  have c: "class_of ErrPayloadTooShort \<in> {MalformedInput, OutOfSequence, Oversize}" by simp
  from Decode_error_resets [OF D c] D c show ?thesis
    by (simp add: reassembly_empty_def example_pending_def)
qed

lemma frames_loop_returns:
  assumes pos: "\<And>b h. Unmarshal b = Some h \<Longrightarrow> 0 < FrameLen h"
  shows "\<exists>r. frames_loop Unmarshal FrameLen d buf frames = Some (Inr r)"
proof (induction "length buf" arbitrary: buf frames rule: less_induct)
  case less
  show ?case
  proof (cases "Unmarshal buf")
    case None
    then show ?thesis by (subst frames_loop.simps) simp
  next
    case (Some h)
    with pos have fl: "0 < FrameLen h" by simp
    show ?thesis
    proof (cases "FrameLen h \<le> int (length buf)")
      case False
      with Some show ?thesis by (subst frames_loop.simps) simp
    next
      case le: True
      show ?thesis
      proof (cases "length (drop (nat (FrameLen h)) buf) = 0")
        case True
        with Some le fl show ?thesis by (subst frames_loop.simps) simp
      next
        case False
        have "length (drop (nat (FrameLen h)) buf) < length buf" using fl le by simp
        from less[OF this] obtain r where
          "frames_loop Unmarshal FrameLen d (drop (nat (FrameLen h)) buf)
             (frames @ [take (nat (FrameLen h)) buf]) = Some (Inr r)" by blast
        with Some le fl False show ?thesis by (subst frames_loop.simps) simp
      qed
    qed
  qed
qed

lemma return_frames_returns:
  "timeDecoder d \<noteq> None \<Longrightarrow> \<exists>r d'. return_frames timeDecode d pkt frames = Some (Inr (r, d'))"
  by (auto simp: return_frames_def split: prod.splits)

lemma Decode_returns:
  assumes pos: "\<And>b h. Unmarshal b = Some h \<Longrightarrow> 0 < FrameLen h"
    and td: "timeDecoder d \<noteq> None"
  shows "\<exists>r d'. Decode Unmarshal FrameLen timeDecode d pkt = Some (Inr (r, d'))"
proof (cases "length (Payload pkt) < 5")
  case True
  then show ?thesis by (simp add: Decode_short)
next
  case False
  then have len: "5 \<le> length (Payload pkt)" by simp
  show ?thesis
  proof (cases "be16 (Payload pkt ! 0) (Payload pkt ! 1) = 0")
    case False
    with len show ?thesis by (simp add: Decode_mbz)
  next
    case mbz: True
    show ?thesis
    proof (cases "be16 (Payload pkt ! 2) (Payload pkt ! 3) = 0")
      case True
      define d1 where "d1 = d\<lparr>fragments := [], fragmentsSize := 0, firstPacketReceived := True\<rparr>"
      from frames_loop_returns[of Unmarshal FrameLen d1 "drop 4 (Payload pkt)" "[]"] pos
      obtain r d2 where l: "frames_loop Unmarshal FrameLen d1 (drop 4 (Payload pkt)) [] = Some (Inr (r, d2))"
        by force
      from frames_loop_post[OF l] td have td2: "timeDecoder d2 \<noteq> None"
        by (auto simp: loop_post_def d1_def)
      show ?thesis
      proof (cases r)
        case (Inl e)
        with len mbz True l show ?thesis by (simp add: Decode_def d1_def)
      next
        case (Inr fs)
        from return_frames_returns[OF td2] obtain r' d' where
          "return_frames timeDecode d2 pkt fs = Some (Inr (r', d'))" by blast
        with Inr len mbz True l show ?thesis by (simp add: Decode_def d1_def)
      qed
    next
      case off: False
      show ?thesis
      proof (cases "uint (be16 (Payload pkt ! 2) (Payload pkt ! 3)) = fragmentsSize d")
        case False
        with len mbz off show ?thesis by (simp add: Decode_mismatch)
      next
        case True
        define bl where "bl = int (length (Payload pkt)) - 4"
        define fr where "fr = fragments d @ [drop 4 (Payload pkt)]"
        have "0 \<le> uint (be16 (Payload pkt ! 2) (Payload pkt ! 3))" by simp
        with True len have nn: "\<not> fragmentsSize d + bl < 0" by (simp add: bl_def)
        then obtain frame where j: "joinFragments fr (fragmentsSize d + bl) = Inr frame"
          by (simp add: joinFragments_def)
        from td obtain tdv where tdv: "timeDecoder d = Some tdv" by auto
        obtain pts td' where t: "timeDecode tdv (Timestamp pkt) = (pts, td')"
          by (cases "timeDecode tdv (Timestamp pkt)") auto
        from len mbz off True j tdv t show ?thesis
          by (simp add: Decode_def Let_def bl_def fr_def return_frames_def)
      qed
    qed
  qed
qed

text \<open>
  C1. Scenario B. A freshly initialised decoder is fed a packet with zero reserved bytes,
  offset 0 and 100 bytes whose frame header declares a length of 200: \<^verbatim>\<open>Decode\<close> returns
  \<^verbatim>\<open>ErrMorePacketsNeeded\<close> with these 100 bytes pending and 100 more expected. Fed then a
  packet with zero reserved bytes, offset 100 and 100 more bytes, it returns the one frame of
  200 bytes that is the first 100 bytes followed by the second 100, and the reassembly
  state is empty again.
\<close>

theorem Decode_scenario_B:
  fixes Unmarshal :: "byte list \<Rightarrow> 'h option" and d :: "'td Decoder"
  assumes "d = Init NewDecoder new_Decoder"
    and "Payload pkt1 = [0, 0, 0, 0] @ buf" and "length buf = 100"
    and "Unmarshal buf = Some h" and "FrameLen h = 200"
    and "Payload pkt2 = [0, 0, 0, 100] @ rest" and "length rest = 100"
    and "d1 = d\<lparr>firstPacketReceived := True, fragments := [buf], fragmentsSize := 100,
                 fragmentsExpected := 100\<rparr>"
    and "timeDecode (NewDecoder 90000) (Timestamp pkt2) = (pts, td')"
    and "d2 = d1\<lparr>fragments := [], fragmentsSize := 0, fragmentsExpected := 0,
                  timeDecoder := Some td'\<rparr>"
  shows "Decode Unmarshal FrameLen timeDecode d pkt1 = Some (Inr (Inl ErrMorePacketsNeeded, d1)) \<and>
         length (concat (fragments d1)) = 100 \<and> fragmentsExpected d1 = 100 \<and>
         Decode Unmarshal FrameLen timeDecode d1 pkt2 = Some (Inr (Inr ([buf @ rest], pts), d2)) \<and>
         length (buf @ rest) = 200 \<and> reassembly_empty d2"
proof -
  have l1: "frames_loop Unmarshal FrameLen
              (d\<lparr>fragments := [], fragmentsSize := 0, firstPacketReceived := True\<rparr>) buf [] =
            Some (Inr (Inl ErrMorePacketsNeeded, d1))"
    using assms(1,3,4,5,8) by (subst frames_loop.simps) (simp add: Init_def new_Decoder_def)
  have first: "Decode Unmarshal FrameLen timeDecode d pkt1 = Some (Inr (Inl ErrMorePacketsNeeded, d1))"
    using assms(2,3) l1 by (simp add: Decode_def be16_def)
  have j: "joinFragments [buf, rest] 200 = Inr (buf @ rest)"
    using assms(3,7) joinFragments_exact [of 200 "[buf, rest]"] by simp
  have second: "Decode Unmarshal FrameLen timeDecode d1 pkt2 = Some (Inr (Inr ([buf @ rest], pts), d2))"
    using assms j by (simp add: Decode_def be16_def return_frames_def Init_def new_Decoder_def)
  show ?thesis using first second assms(1,3,7,8,10) by (simp add: reassembly_empty_def)
qed

theorem Decode_scenario_B_witness:
  "Decode example_Unmarshal example_FrameLen example_timeDecode
     (Init example_NewDecoder new_Decoder)
     (payload_packet ([0, 0, 0, 0] @ 0xFF # 198 # replicate 98 7)) =
     Some (Inr (Inl ErrMorePacketsNeeded,
       \<lparr>timeDecoder = Some 0, firstPacketReceived = True,
        fragments = [0xFF # 198 # replicate 98 7], fragmentsSize = 100, fragmentsExpected = 100\<rparr>)) \<and>
   Decode example_Unmarshal example_FrameLen example_timeDecode
     \<lparr>timeDecoder = Some 0, firstPacketReceived = True,
      fragments = [0xFF # 198 # replicate 98 7], fragmentsSize = 100, fragmentsExpected = 100\<rparr>
     (payload_packet ([0, 0, 0, 100] @ replicate 100 9)) =
     Some (Inr (Inr ([(0xFF # 198 # replicate 98 7) @ replicate 100 9], 0),
       \<lparr>timeDecoder = Some 0, firstPacketReceived = True,
        fragments = [], fragmentsSize = 0, fragmentsExpected = 0\<rparr>))"
proof -
  let ?buf = "0xFF # 198 # replicate 98 (7 :: byte)"
  let ?rest = "replicate 100 (9 :: byte)"
  let ?N = "example_NewDecoder"
  let ?d1 = "\<lparr>timeDecoder = Some (0 :: 32 word), firstPacketReceived = True,
        fragments = [?buf], fragmentsSize = 100, fragmentsExpected = 100\<rparr>"
  let ?d2 = "\<lparr>timeDecoder = Some (0 :: 32 word), firstPacketReceived = True,
        fragments = [], fragmentsSize = 0, fragmentsExpected = 0\<rparr>"
  have h1: "Init ?N new_Decoder = Init ?N new_Decoder" by (rule refl)
  have h2: "Payload (payload_packet ([0, 0, 0, 0] @ ?buf)) = [0, 0, 0, 0] @ ?buf"
    by (simp only: payload_packet_def rtp_packet.simps)
  have h3: "length ?buf = 100" by simp
  have h4: "example_Unmarshal ?buf = Some 198" by (simp add: example_Unmarshal_def)
  have h5: "example_FrameLen 198 = 200" by (simp add: example_FrameLen_def)
  have h6: "Payload (payload_packet ([0, 0, 0, 100] @ ?rest)) = [0, 0, 0, 100] @ ?rest"
    by (simp only: payload_packet_def rtp_packet.simps)
  have h7: "length ?rest = 100" by simp
  have h8: "?d1 = (Init ?N new_Decoder)\<lparr>firstPacketReceived := True, fragments := [?buf],
                 fragmentsSize := 100, fragmentsExpected := 100\<rparr>"
    by (simp add: Init_def new_Decoder_def example_NewDecoder_def)
  have h9: "example_timeDecode (?N 90000) (Timestamp (payload_packet ([0, 0, 0, 100] @ ?rest))) = (0, 0)"
    by (simp add: example_timeDecode_def payload_packet_def example_NewDecoder_def)
  have h10: "?d2 = ?d1\<lparr>fragments := [], fragmentsSize := 0, fragmentsExpected := 0,
                  timeDecoder := Some 0\<rparr>"
    by simp
  from Decode_scenario_B [where NewDecoder = ?N and Unmarshal = example_Unmarshal
      and FrameLen = example_FrameLen and timeDecode = example_timeDecode
      and buf = ?buf and rest = ?rest and h = 198 and pts = 0 and td' = 0
      and ?d1.0 = ?d1 and ?d2.0 = ?d2, OF h1 h2 h3 h4 h5 h6 h7 h8 h9 h10]
  show ?thesis by blast
qed

text \<open>
  C3, as the code has it. A payload of exactly the 4 header bytes is rejected as too short
  before the offset is looked at: here a fresh decoder, zero reserved bytes and offset 5.
\<close>

theorem Decode_offset_mismatch_counterexample:
  "be16 0 0 = 0 \<and> be16 0 5 \<noteq> 0 \<and>
   uint (be16 0 5) \<noteq> fragmentsSize (Init example_NewDecoder new_Decoder) \<and>
   \<not> firstPacketReceived (Init example_NewDecoder new_Decoder) \<and>
   Decode example_Unmarshal example_FrameLen example_timeDecode
     (Init example_NewDecoder new_Decoder) (payload_packet [0, 0, 0, 5]) =
     Some (Inr (Inl ErrPayloadTooShort, Init example_NewDecoder new_Decoder)) \<and>
   class_of ErrPayloadTooShort \<noteq> JoinedMidFragment"
  by (simp add: Decode_def payload_packet_def be16_def Init_def new_Decoder_def)

text \<open>
  C3, amended. For a payload of at least 5 bytes with zero reserved bytes whose offset is
  not zero and differs from the accumulated size: a decoder that never saw a starting
  packet returns \<^verbatim>\<open>ErrNonStartingPacketAndNoPrevious\<close> and is left exactly as it was; a
  decoder that did has its pending fragments dropped and its accumulated size zeroed, and
  returns the out-of-sequence error.
\<close>

theorem Decode_offset_mismatch:
  assumes "5 \<le> length (Payload pkt)"
    and "be16 (Payload pkt ! 0) (Payload pkt ! 1) = 0"
    and "offset = be16 (Payload pkt ! 2) (Payload pkt ! 3)"
    and "offset \<noteq> 0" and "uint offset \<noteq> fragmentsSize d"
  shows "(\<not> firstPacketReceived d \<longrightarrow>
            Decode Unmarshal FrameLen timeDecode d pkt =
              Some (Inr (Inl ErrNonStartingPacketAndNoPrevious, d))) \<and>
         (firstPacketReceived d \<longrightarrow>
            Decode Unmarshal FrameLen timeDecode d pkt =
              Some (Inr (Inl (ErrUnexpectedOffset offset 0),
                         d\<lparr>fragments := [], fragmentsSize := 0\<rparr>)) \<and>
            class_of (ErrUnexpectedOffset offset 0) = OutOfSequence)"
  using assms by (simp add: Decode_mismatch reset_fragments_def)

theorem Decode_offset_mismatch_witness:
  "Decode example_Unmarshal example_FrameLen example_timeDecode
     (Init example_NewDecoder new_Decoder) (payload_packet [0, 0, 0, 5, 1]) =
     Some (Inr (Inl ErrNonStartingPacketAndNoPrevious, Init example_NewDecoder new_Decoder)) \<and>
   Decode example_Unmarshal example_FrameLen example_timeDecode
     example_pending (payload_packet [0, 0, 0, 3, 1]) =
     Some (Inr (Inl (ErrUnexpectedOffset 3 0),
                example_pending\<lparr>fragments := [], fragmentsSize := 0\<rparr>))"
proof -
  let ?d = "Init example_NewDecoder new_Decoder"
  let ?p = "payload_packet [0, 0, 0, 5, 1]"
  let ?q = "payload_packet [0, 0, 0, 3, 1]"
  have p: "5 \<le> length (Payload ?p)" "be16 (Payload ?p ! 0) (Payload ?p ! 1) = 0"
    "5 = be16 (Payload ?p ! 2) (Payload ?p ! 3)" "(5 :: 16 word) \<noteq> 0"
    "uint (5 :: 16 word) \<noteq> fragmentsSize ?d" "\<not> firstPacketReceived ?d"
    by (simp_all add: payload_packet_def be16_def Init_def new_Decoder_def)
  have q: "5 \<le> length (Payload ?q)" "be16 (Payload ?q ! 0) (Payload ?q ! 1) = 0"
    "3 = be16 (Payload ?q ! 2) (Payload ?q ! 3)" "(3 :: 16 word) \<noteq> 0"
    "uint (3 :: 16 word) \<noteq> fragmentsSize example_pending" "firstPacketReceived example_pending"
    by (simp_all add: payload_packet_def be16_def example_pending_def)
  from Decode_offset_mismatch [OF p(1-5), of example_Unmarshal example_FrameLen example_timeDecode]
    Decode_offset_mismatch [OF q(1-5), of example_Unmarshal example_FrameLen example_timeDecode]
    p(6) q(6)
  show ?thesis by blast
qed

text \<open>
  C7, as the code has it. The guard is \<^verbatim>\<open>len(pkt.Payload) < 5\<close>: a payload of 4 bytes with
  zero reserved bytes is rejected as too short.
\<close>

theorem Decode_too_short_counterexample:
  "4 \<le> length (Payload (payload_packet [0, 0, 0, 0])) \<and>
   be16 (Payload (payload_packet [0, 0, 0, 0]) ! 0) (Payload (payload_packet [0, 0, 0, 0]) ! 1) = 0 \<and>
   Decode example_Unmarshal example_FrameLen example_timeDecode
     (Init example_NewDecoder new_Decoder) (payload_packet [0, 0, 0, 0]) =
     Some (Inr (Inl ErrPayloadTooShort, Init example_NewDecoder new_Decoder))"
  by (simp add: Decode_def payload_packet_def be16_def Init_def new_Decoder_def)

text \<open>
  C7, amended. \<^verbatim>\<open>Decode\<close> rejects a payload as too short exactly when it has fewer than 5
  bytes, the 4 header bytes and one byte of data: then it returns the MalformedInput error
  \<^verbatim>\<open>ErrPayloadTooShort\<close> and drops the pending fragments; a payload of 5 bytes or more
  never gets that error.
\<close>

theorem Decode_too_short_iff:
  "(length (Payload pkt) < 5 \<longrightarrow>
      Decode Unmarshal FrameLen timeDecode d pkt =
        Some (Inr (Inl ErrPayloadTooShort, d\<lparr>fragments := [], fragmentsSize := 0\<rparr>)) \<and>
      class_of ErrPayloadTooShort = MalformedInput \<and>
      reassembly_empty (d\<lparr>fragments := [], fragmentsSize := 0\<rparr>)) \<and>
   (5 \<le> length (Payload pkt) \<longrightarrow>
      (\<forall>d'. Decode Unmarshal FrameLen timeDecode d pkt \<noteq> Some (Inr (Inl ErrPayloadTooShort, d'))))"
proof (intro conjI impI allI)
  assume "length (Payload pkt) < 5"
  then show "Decode Unmarshal FrameLen timeDecode d pkt =
        Some (Inr (Inl ErrPayloadTooShort, d\<lparr>fragments := [], fragmentsSize := 0\<rparr>))"
    by (simp add: Decode_short reset_fragments_def)
next
  show "class_of ErrPayloadTooShort = MalformedInput" by simp
next
  show "reassembly_empty (d\<lparr>fragments := [], fragmentsSize := 0\<rparr>)"
    by (simp add: reassembly_empty_def)
next
  fix d'
  assume len: "5 \<le> length (Payload pkt)"
  show "Decode Unmarshal FrameLen timeDecode d pkt \<noteq> Some (Inr (Inl ErrPayloadTooShort, d'))"
  proof
    assume D: "Decode Unmarshal FrameLen timeDecode d pkt = Some (Inr (Inl ErrPayloadTooShort, d'))"
    show False
    proof (cases "be16 (Payload pkt ! 0) (Payload pkt ! 1) = 0")
      case False
      with len D show False by (simp add: Decode_mbz)
    next
      case mbz: True
      show False
      proof (cases "be16 (Payload pkt ! 2) (Payload pkt ! 3) = 0")
        case True
        from Decode_start[OF len mbz True D] show False
          by (auto simp: start_post_def Let_def)
      next
        case off: False
        show False
        proof (cases "uint (be16 (Payload pkt ! 2) (Payload pkt ! 3)) = fragmentsSize d")
          case True
          from Decode_continue[OF len mbz off True D] show False
            by (auto simp: continue_post_def Let_def)
        next
          case False
          with len mbz off D show False
            by (auto simp: Decode_mismatch split: if_splits)
        qed
      qed
    qed
  qed
qed

theorem Decode_too_short_iff_witness:
  "Decode example_Unmarshal example_FrameLen example_timeDecode example_pending
     (payload_packet [0, 0, 0, 4]) =
     Some (Inr (Inl ErrPayloadTooShort, example_pending\<lparr>fragments := [], fragmentsSize := 0\<rparr>)) \<and>
   Decode example_Unmarshal example_FrameLen example_timeDecode example_pending
     (payload_packet [0, 0, 0, 4, 1]) \<noteq>
     Some (Inr (Inl ErrPayloadTooShort, example_pending\<lparr>fragments := [], fragmentsSize := 0\<rparr>))"
proof -
  have "length (Payload (payload_packet [0, 0, 0, 4])) < 5"
    "5 \<le> length (Payload (payload_packet [0, 0, 0, 4, 1]))"
    by (simp_all add: payload_packet_def)
  with Decode_too_short_iff [of "payload_packet [0, 0, 0, 4]" example_Unmarshal example_FrameLen
      example_timeDecode example_pending]
    Decode_too_short_iff [of "payload_packet [0, 0, 0, 4, 1]" example_Unmarshal example_FrameLen
      example_timeDecode example_pending]
  show ?thesis by blast
qed

text \<open>
  C5. The state invariant: the reassembly state is empty, or the accumulated size plus the
  remaining size is the length declared by the header that began the reassembly. The
  initialised decoder satisfies it, and every returning call of \<^verbatim>\<open>Decode\<close>, whatever it
  returns, hands it on.
\<close>

theorem Decode_preserves_reassembly_inv:
  "reassembly_inv Unmarshal FrameLen (Init NewDecoder new_Decoder) \<and>
   (reassembly_inv Unmarshal FrameLen d \<and>
    Decode Unmarshal FrameLen timeDecode d pkt = Some (Inr (r, d'))
    \<longrightarrow> reassembly_inv Unmarshal FrameLen d')"
proof (intro conjI impI)
  show "reassembly_inv Unmarshal FrameLen (Init NewDecoder new_Decoder)"
    by (simp add: reassembly_inv_def reassembly_empty_def Init_def new_Decoder_def)
next
  assume a: "reassembly_inv Unmarshal FrameLen d \<and>
    Decode Unmarshal FrameLen timeDecode d pkt = Some (Inr (r, d'))"
  then have inv: "reassembly_inv Unmarshal FrameLen d"
    and D: "Decode Unmarshal FrameLen timeDecode d pkt = Some (Inr (r, d'))" by simp_all
  show "reassembly_inv Unmarshal FrameLen d'"
  proof (cases "length (Payload pkt) < 5")
    case True
    with D show ?thesis
      by (auto simp: Decode_short reset_fragments_def reassembly_inv_def reassembly_empty_def)
  next
    case False
    then have len: "5 \<le> length (Payload pkt)" by simp
    show ?thesis
    proof (cases "be16 (Payload pkt ! 0) (Payload pkt ! 1) = 0")
      case False
      with len D show ?thesis
        by (auto simp: Decode_mbz reset_fragments_def reassembly_inv_def reassembly_empty_def)
    next
      case mbz: True
      show ?thesis
      proof (cases "be16 (Payload pkt ! 2) (Payload pkt ! 3) = 0")
        case True
        from Decode_start[OF len mbz True D] show ?thesis
          by (auto simp: start_post_def Let_def reassembly_inv_def reassembly_empty_def
              declared_length_def)
      next
        case off: False
        show ?thesis
        proof (cases "uint (be16 (Payload pkt ! 2) (Payload pkt ! 3)) = fragmentsSize d")
          case False
          with len mbz off D inv show ?thesis
            by (auto simp: Decode_mismatch reset_fragments_def reassembly_inv_def
                reassembly_empty_def split: if_splits)
        next
          case True
          with off have "fragmentsSize d \<noteq> 0" by (auto simp: uint_0_iff)
          with inv obtain f fs where f: "fragments d = f # fs"
            and dl: "map_option FrameLen (Unmarshal f) = Some (fragmentsSize d + fragmentsExpected d)"
            by (auto simp: reassembly_inv_def reassembly_empty_def declared_length_def
                split: list.splits)
          from Decode_continue[OF len mbz off True D] f dl show ?thesis
            by (auto simp: continue_post_def Let_def reassembly_inv_def reassembly_empty_def
                declared_length_def reset_fragments_def)
        qed
      qed
    qed
  qed
qed

theorem Decode_preserves_reassembly_inv_witness:
  "reassembly_inv example_Unmarshal example_FrameLen example_pending \<and>
   \<not> reassembly_empty example_pending \<and>
   Decode example_Unmarshal example_FrameLen example_timeDecode example_pending
     (payload_packet [0, 0, 0, 4, 9, 9]) =
     Some (Inr (Inl ErrMorePacketsNeeded,
       example_pending\<lparr>fragments := [[0xFF, 8, 1, 2], [9, 9]], fragmentsSize := 6,
         fragmentsExpected := 4\<rparr>)) \<and>
   reassembly_inv example_Unmarshal example_FrameLen
     (example_pending\<lparr>fragments := [[0xFF, 8, 1, 2], [9, 9]], fragmentsSize := 6,
         fragmentsExpected := 4\<rparr>)"
proof -
  have i: "reassembly_inv example_Unmarshal example_FrameLen example_pending"
    by (simp add: reassembly_inv_def declared_length_def example_pending_def
        example_Unmarshal_def example_FrameLen_def)
  have D: "Decode example_Unmarshal example_FrameLen example_timeDecode example_pending
     (payload_packet [0, 0, 0, 4, 9, 9]) =
     Some (Inr (Inl ErrMorePacketsNeeded,
       example_pending\<lparr>fragments := [[0xFF, 8, 1, 2], [9, 9]], fragmentsSize := 6,
         fragmentsExpected := 4\<rparr>))"
    by (simp add: Decode_def payload_packet_def be16_def example_pending_def)
  have n: "\<not> reassembly_empty example_pending"
    by (simp add: reassembly_empty_def example_pending_def)
  from Decode_preserves_reassembly_inv [of example_Unmarshal example_FrameLen example_NewDecoder
      example_pending example_timeDecode "payload_packet [0, 0, 0, 4, 9, 9]"] i D n
  show ?thesis by blast
qed

section \<open>Properties of the unit packetizer\<close>

lemma obu_loop_unfold:
  "obu_loop LEB128Marshal ts ssrc st obu =
     (if fits st obu then Some (place_whole LEB128Marshal st obu)
      else if PayloadMaxSize (enc st) - curPayloadLen st > 2
        then obu_loop LEB128Marshal ts ssrc
               (next_packet ts ssrc (place_fragment LEB128Marshal st obu))
               (drop (nat (PayloadMaxSize (enc st) - curPayloadLen st - 2)) obu)
        else obu_loop LEB128Marshal ts ssrc (next_packet ts ssrc st) obu)"
  by (subst obu_loop.simps)
     (simp add: Let_def fits_def place_whole_def place_fragment_def next_packet_def)

lemma obu_loop_rule:
  assumes run: "obu_loop LEB128Marshal ts ssrc st obu = Some st'"
    and init: "P st obu"
    and whole: "\<And>st obu. P st obu \<Longrightarrow> fits st obu \<Longrightarrow> Q (place_whole LEB128Marshal st obu)"
    and frag: "\<And>st obu. P st obu \<Longrightarrow> \<not> fits st obu \<Longrightarrow>
                  2 < PayloadMaxSize (enc st) - curPayloadLen st \<Longrightarrow>
                  P (next_packet ts ssrc (place_fragment LEB128Marshal st obu))
                    (drop (nat (PayloadMaxSize (enc st) - curPayloadLen st - 2)) obu)"
    and skip: "\<And>st obu. P st obu \<Longrightarrow> \<not> fits st obu \<Longrightarrow>
                  \<not> 2 < PayloadMaxSize (enc st) - curPayloadLen st \<Longrightarrow>
                  P (next_packet ts ssrc st) obu"
  shows "Q st'"
proof -
  have "LEB128Marshal = LEB128Marshal \<and> ts = ts \<and> ssrc = ssrc \<and> P st obu \<longrightarrow> Q st'"
  proof (rule obu_loop.raw_induct[where P = "\<lambda>l t s st obu st'. l = LEB128Marshal \<and> t = ts \<and> s = ssrc \<and> P st obu \<longrightarrow> Q st'", OF _ run])
    fix loop l t s st obu st'
    assume ih: "\<And>l t s st obu st'. loop l t s st obu = Some st' \<Longrightarrow>
                  l = LEB128Marshal \<and> t = ts \<and> s = ssrc \<and> P st obu \<longrightarrow> Q st'"
      and body: "(let avail = PayloadMaxSize (enc st) - curPayloadLen st;
          obuLen = int (length obu);
          needed = obuLen + 2
      in if needed \<le> avail then
           (let le = l (nat obuLen)
            in Some ((update_curPacket (\<lambda>p. p\<lparr>Payload := Payload p @ le @ obu\<rparr>) st)
                       \<lparr>curPayloadLen := curPayloadLen st + int (length le) + obuLen\<rparr>))
         else
           (let (st1, obu1) =
                  (if avail > 2 then
                     (let fragmentLen = avail - 2;
                          le = l (nat fragmentLen)
                      in (update_curPacket
                            (\<lambda>p. p\<lparr>Payload := Payload p @ le @ take (nat fragmentLen) obu\<rparr>) st,
                          drop (nat fragmentLen) obu))
                   else (st, obu))
            in loop l t s
                 (createNewPacket t s True (finalizeCurPacket True st1)) obu1)) = Some st'"
    show "l = LEB128Marshal \<and> t = ts \<and> s = ssrc \<and> P st obu \<longrightarrow> Q st'"
    proof
      assume a: "l = LEB128Marshal \<and> t = ts \<and> s = ssrc \<and> P st obu"
      show "Q st'"
      proof (cases "fits st obu")
        case True
        with body a have "st' = place_whole LEB128Marshal st obu"
          by (auto simp: fits_def place_whole_def Let_def)
        with whole a True show ?thesis by simp
      next
        case nf: False
        show ?thesis
        proof (cases "2 < PayloadMaxSize (enc st) - curPayloadLen st")
          case True
          with body a nf have "loop LEB128Marshal ts ssrc
               (next_packet ts ssrc (place_fragment LEB128Marshal st obu))
               (drop (nat (PayloadMaxSize (enc st) - curPayloadLen st - 2)) obu) = Some st'"
            by (simp add: fits_def place_fragment_def next_packet_def Let_def)
          from ih[OF this] frag[OF _ nf True] a show ?thesis by simp
        next
          case False
          with body a nf have "loop LEB128Marshal ts ssrc (next_packet ts ssrc st) obu = Some st'"
            by (simp add: fits_def next_packet_def Let_def)
          from ih[OF this] skip[OF _ nf False] a show ?thesis by simp
        qed
      qed
    qed
  qed
  with init show ?thesis by simp
qed

lemma indexed_all_snoc:
  "indexed_all R (xs @ [x]) = (indexed_all R xs \<and> R (length xs) x)"
  by (auto simp: indexed_all_def nth_append less_Suc_eq)

lemma indexed_all_snoc2:
  "indexed_all R (xs @ [x, y]) = (indexed_all R xs \<and> R (length xs) x \<and> R (Suc (length xs)) y)"
  using indexed_all_snoc[of R "xs @ [x]" y] by (simp add: indexed_all_snoc)

lemma indexed_all_Nil: "indexed_all R []"
  by (simp add: indexed_all_def)

lemma snoc_cases: "xs \<noteq> [] \<Longrightarrow> \<exists>ps c. xs = ps @ [c]"
  by (cases xs rule: rev_cases) auto

lemma packets_place_whole:
  "packets st = ps @ [c] \<Longrightarrow>
   packets (place_whole l st obu) = ps @ [c\<lparr>Payload := Payload c @ l (length obu) @ obu\<rparr>]"
  by (simp add: place_whole_def update_curPacket_def)

lemma enc_place_whole: "enc (place_whole l st obu) = enc st"
  by (simp add: place_whole_def update_curPacket_def)

lemma curPayloadLen_place_whole:
  "curPayloadLen (place_whole l st obu) =
     curPayloadLen st + int (length (l (length obu))) + int (length obu)"
  by (simp add: place_whole_def)

lemma packets_place_fragment:
  "packets st = ps @ [c] \<Longrightarrow>
   packets (place_fragment l st obu) =
     ps @ [c\<lparr>Payload := Payload c @ l (nat (PayloadMaxSize (enc st) - curPayloadLen st - 2)) @
                 take (nat (PayloadMaxSize (enc st) - curPayloadLen st - 2)) obu\<rparr>]"
  by (simp add: place_fragment_def update_curPacket_def Let_def)

lemma enc_place_fragment: "enc (place_fragment l st obu) = enc st"
  by (simp add: place_fragment_def update_curPacket_def Let_def)

lemma packets_next_packet:
  "packets st = ps @ [c] \<Longrightarrow>
   packets (next_packet ts ssrc st) =
     ps @ [or_Payload0 (push_bit 6 1) c, new_packet (enc st) ts ssrc True]"
  by (simp add: next_packet_def createNewPacket_def finalizeCurPacket_def update_curPacket_def
      new_packet_def or_Payload0_def Let_def butlast_append)

lemma enc_next_packet:
  "enc (next_packet ts ssrc st) = (enc st)\<lparr>sequenceNumber := sequenceNumber (enc st) + 1\<rparr>"
  by (simp add: next_packet_def createNewPacket_def finalizeCurPacket_def update_curPacket_def
      Let_def)

lemma curPayloadLen_next_packet: "curPayloadLen (next_packet ts ssrc st) = 1"
  by (simp add: next_packet_def createNewPacket_def finalizeCurPacket_def update_curPacket_def
      Let_def)

lemma hdr_ok_Payload [simp]: "hdr_ok e0 ts ssrc i (p\<lparr>Payload := x\<rparr>) = hdr_ok e0 ts ssrc i p"
  by (simp add: hdr_ok_def)

lemma hdr_ok_Marker [simp]: "hdr_ok e0 ts ssrc i (p\<lparr>Marker := x\<rparr>) = hdr_ok e0 ts ssrc i p"
  by (simp add: hdr_ok_def)

lemma hdr_ok_or_Payload0 [simp]: "hdr_ok e0 ts ssrc i (or_Payload0 m p) = hdr_ok e0 ts ssrc i p"
  by (simp add: or_Payload0_def)

lemma hdr_inv_place_whole:
  "hdr_inv e0 ts ssrc st \<Longrightarrow> hdr_inv e0 ts ssrc (place_whole l st obu)"
proof -
  assume a: "hdr_inv e0 ts ssrc st"
  then have "packets st \<noteq> []" by (simp add: hdr_inv_def)
  then obtain ps c where p: "packets st = ps @ [c]" using snoc_cases by blast
  with a show ?thesis
    by (simp add: hdr_inv_def packets_place_whole[OF p] enc_place_whole indexed_all_snoc)
qed

lemma hdr_inv_place_fragment:
  "hdr_inv e0 ts ssrc st \<Longrightarrow> hdr_inv e0 ts ssrc (place_fragment l st obu)"
proof -
  assume a: "hdr_inv e0 ts ssrc st"
  then have "packets st \<noteq> []" by (simp add: hdr_inv_def)
  then obtain ps c where p: "packets st = ps @ [c]" using snoc_cases by blast
  with a show ?thesis
    by (simp add: hdr_inv_def packets_place_fragment[OF p] enc_place_fragment indexed_all_snoc)
qed

lemma hdr_inv_next_packet:
  "hdr_inv e0 ts ssrc st \<Longrightarrow> hdr_inv e0 ts ssrc (next_packet ts ssrc st)"
proof -
  assume a: "hdr_inv e0 ts ssrc st"
  then have "packets st \<noteq> []" by (simp add: hdr_inv_def)
  then obtain ps c where p: "packets st = ps @ [c]" using snoc_cases by blast
  from a p show ?thesis
    by (simp add: hdr_inv_def packets_next_packet[OF p] enc_next_packet indexed_all_snoc
        indexed_all_snoc2 hdr_ok_def new_packet_def rtpVersion_def or_Payload0_def)
qed

lemma hdr_inv_obu_loop:
  assumes "obu_loop l ts ssrc st obu = Some st'" "hdr_inv e0 ts ssrc st"
  shows "hdr_inv e0 ts ssrc st'"
  by (rule obu_loop_rule[OF assms(1), where P = "\<lambda>st obu. hdr_inv e0 ts ssrc st"])
     (simp_all add: assms(2) hdr_inv_place_whole hdr_inv_place_fragment hdr_inv_next_packet)

lemma hdr_inv_obus_loop:
  "obus_loop l ts ssrc st obus = Some st' \<Longrightarrow> hdr_inv e0 ts ssrc st \<Longrightarrow> hdr_inv e0 ts ssrc st'"
proof (induction obus arbitrary: st)
  case Nil
  then show ?case by simp
next
  case (Cons obu obus)
  from Cons.prems(1) obtain st1 where s: "obu_loop l ts ssrc st obu = Some st1"
    and r: "obus_loop l ts ssrc st1 obus = Some st'"
    by (auto split: option.splits)
  from Cons.IH[OF r hdr_inv_obu_loop[OF s Cons.prems(2)]] show ?case .
qed

lemma first_state_simps:
  "packets (first_state e ts ssrc) = [new_packet e ts ssrc False]"
  "enc (first_state e ts ssrc) = e\<lparr>sequenceNumber := sequenceNumber e + 1\<rparr>"
  "curPayloadLen (first_state e ts ssrc) = 1"
  by (simp_all add: first_state_def createNewPacket_def new_packet_def Let_def)

lemma Encode_unfold:
  "Encode ContainsKeyFrame LEB128Marshal timeEncode e obus pts =
     (case ContainsKeyFrame obus of
        Inl err \<Rightarrow> Some (Inr (Inl err, e))
      | Inr isKeyFrame \<Rightarrow>
          (case timeEncoder e of
             None \<Rightarrow> Some (Inl NilDereference)
           | Some te \<Rightarrow>
               (case EncoderSSRC e of
                  None \<Rightarrow> Some (Inl NilDereference)
                | Some ssrc \<Rightarrow>
                    (case obus_loop LEB128Marshal (timeEncode te pts) ssrc
                            (first_state e (timeEncode te pts) ssrc) obus of
                       None \<Rightarrow> None
                     | Some st1 \<Rightarrow>
                         Some (Inr (Inr (mark_last (mark_keyframe isKeyFrame (packets st1))),
                                    enc st1))))))"
  by (simp add: Encode_def first_state_def mark_keyframe_def mark_last_def finalizeCurPacket_def
      Let_def split: sum.split option.split)

lemma Encode_packets_cases:
  assumes "Encode ContainsKeyFrame LEB128Marshal timeEncode e obus pts = Some (Inr (Inr pkts, e'))"
  obtains isKeyFrame te ssrc st1 where
    "ContainsKeyFrame obus = Inr isKeyFrame" "timeEncoder e = Some te" "EncoderSSRC e = Some ssrc"
    "obus_loop LEB128Marshal (timeEncode te pts) ssrc (first_state e (timeEncode te pts) ssrc) obus
       = Some st1"
    "pkts = mark_last (mark_keyframe isKeyFrame (packets st1))" "e' = enc st1"
  using assms unfolding Encode_unfold
  by (auto split: sum.splits option.splits)

lemma indexed_all_update:
  assumes "indexed_all R xs" "\<And>i. R i (xs ! i) \<Longrightarrow> R i (f (xs ! i))"
  shows "indexed_all R (xs[k := f (xs ! k)])"
  unfolding indexed_all_def
proof (intro allI impI)
  fix i assume "i < length (xs[k := f (xs ! k)])"
  then have i: "i < length xs" by simp
  with assms(1) have "R i (xs ! i)" by (simp add: indexed_all_def)
  with assms(2) i show "R i (xs[k := f (xs ! k)] ! i)"
    by (cases "i = k") (simp_all add: nth_list_update)
qed

lemma hdr_inv_first_state: "hdr_inv e ts ssrc (first_state e ts ssrc)"
  by (simp add: hdr_inv_def first_state_simps indexed_all_def hdr_ok_def new_packet_def
      rtpVersion_def)

lemma hdr_ok_marks:
  assumes "indexed_all (hdr_ok e ts ssrc) ps"
  shows "indexed_all (hdr_ok e ts ssrc) (mark_last (mark_keyframe k ps))"
proof -
  have "indexed_all (hdr_ok e ts ssrc) (mark_keyframe k ps)"
    unfolding mark_keyframe_def using assms
    by (auto intro: indexed_all_update)
  then show ?thesis
    unfolding mark_last_def by (rule indexed_all_update) simp
qed

lemma length_marks [simp]: "length (mark_last (mark_keyframe k ps)) = length ps"
  by (simp add: mark_last_def mark_keyframe_def)

text \<open>
  C10. A call of \<^verbatim>\<open>Encode\<close> that returns packets returns at least one. Packet \<open>i\<close> carries
  the sequence number of the encoder before the call plus \<open>i\<close> (in 16 bits, wrapping), the
  timestamp the time encoder gives for the presentation time, the SSRC and the payload type
  of the encoder, and version 2; the encoder's counter has advanced by the number of packets.
  After \<^verbatim>\<open>Init\<close> the counter is the initial sequence number, the given one or else the
  random one.
\<close>

theorem Encode_packet_headers:
  assumes "Encode ContainsKeyFrame LEB128Marshal timeEncode e obus pts = Some (Inr (Inr pkts, e'))"
  shows "pkts \<noteq> [] \<and>
         (\<exists>te ssrc. timeEncoder e = Some te \<and> EncoderSSRC e = Some ssrc \<and>
            (\<forall>i<length pkts.
               SequenceNumber (pkts ! i) = sequenceNumber e + word_of_nat i \<and>
               Timestamp (pkts ! i) = timeEncode te pts \<and>
               SSRC (pkts ! i) = ssrc \<and>
               PayloadType (pkts ! i) = EncoderPayloadType e \<and>
               Version (pkts ! i) = 2)) \<and>
         e' = e\<lparr>sequenceNumber := sequenceNumber e + word_of_nat (length pkts)\<rparr> \<and>
         sequenceNumber (Encoder_Init r1 r2 r3 NewEncoder e0) =
           (case InitialSequenceNumber e0 of None \<Rightarrow> ucast r2 | Some v \<Rightarrow> v)"
proof -
  from assms obtain isKeyFrame te ssrc st1 where
    te: "timeEncoder e = Some te" and ssrc: "EncoderSSRC e = Some ssrc"
    and loop: "obus_loop LEB128Marshal (timeEncode te pts) ssrc
                 (first_state e (timeEncode te pts) ssrc) obus = Some st1"
    and pkts: "pkts = mark_last (mark_keyframe isKeyFrame (packets st1))" and e': "e' = enc st1"
    by (rule Encode_packets_cases)
  from hdr_inv_obus_loop[OF loop hdr_inv_first_state]
  have inv: "hdr_inv e (timeEncode te pts) ssrc st1" .
  then have ne: "packets st1 \<noteq> []"
    and enc: "enc st1 = e\<lparr>sequenceNumber := sequenceNumber e + word_of_nat (length (packets st1))\<rparr>"
    and all: "indexed_all (hdr_ok e (timeEncode te pts) ssrc) (packets st1)"
    by (simp_all add: hdr_inv_def)
  from hdr_ok_marks[OF all] pkts
  have "indexed_all (hdr_ok e (timeEncode te pts) ssrc) pkts" by simp
  then have hdrs: "\<forall>i<length pkts.
               SequenceNumber (pkts ! i) = sequenceNumber e + word_of_nat i \<and>
               Timestamp (pkts ! i) = timeEncode te pts \<and>
               SSRC (pkts ! i) = ssrc \<and>
               PayloadType (pkts ! i) = EncoderPayloadType e \<and>
               Version (pkts ! i) = 2"
    by (simp add: indexed_all_def hdr_ok_def)
  have len: "length pkts = length (packets st1)" using pkts by simp
  have init: "sequenceNumber (Encoder_Init r1 r2 r3 NewEncoder e0) =
           (case InitialSequenceNumber e0 of None \<Rightarrow> ucast r2 | Some v \<Rightarrow> v)"
    by (simp add: Encoder_Init_def Let_def split: option.split)
  from ne len have "pkts \<noteq> []" by auto
  with te ssrc hdrs enc e' len init show ?thesis by simp
qed

lemma example_Encoder_eq:
  "example_Encoder m =
     \<lparr>EncoderPayloadType = 96, EncoderSSRC = Some 0x1234, InitialSequenceNumber = Some 0xFFFF,
      InitialTimestamp = Some 1000, PayloadMaxSize = (if m = 0 then 1460 else m),
      sequenceNumber = 0xFFFF, timeEncoder = Some 1000\<rparr>"
  by (simp add: example_Encoder_def Encoder_Init_def example_NewEncoder_def Let_def)

declare example_LEB128Marshal.simps [simp del]

lemmas Encode_eval = example_LEB128Marshal.simps Encode_unfold example_Encoder_eq example_ContainsKeyFrame_def
      example_timeEncode_def first_state_def createNewPacket_def obu_loop_unfold fits_def
      place_whole_def place_fragment_def next_packet_def finalizeCurPacket_def
      update_curPacket_def or_Payload0_def mark_last_def mark_keyframe_def rtpVersion_def
      new_packet_def Let_def

lemma Encode_example_two_units:
  "Encode example_ContainsKeyFrame example_LEB128Marshal example_timeEncode (example_Encoder 10)
     [[1, 2, 3, 4, 5, 6], [7, 8, 9]] 0 =
   Some (Inr (Inr [\<lparr>Version = 2, Marker = False, PayloadType = 96, SequenceNumber = 0xFFFF,
                     Timestamp = 1000, SSRC = 0x1234, Payload = [0x40, 6, 1, 2, 3, 4, 5, 6]\<rparr>,
                   \<lparr>Version = 2, Marker = True, PayloadType = 96, SequenceNumber = 0,
                     Timestamp = 1000, SSRC = 0x1234, Payload = [0x80, 3, 7, 8, 9]\<rparr>],
              (example_Encoder 10)\<lparr>sequenceNumber := 1\<rparr>))"
  by (simp add: Encode_eval)

lemma Encode_example_default:
  "Encode example_ContainsKeyFrame example_LEB128Marshal example_timeEncode (example_Encoder 0)
     [replicate 1456 1, [7, 8, 9]] 0 =
   Some (Inr (Inr [\<lparr>Version = 2, Marker = False, PayloadType = 96, SequenceNumber = 0xFFFF,
                     Timestamp = 1000, SSRC = 0x1234,
                     Payload = [0x40, 0xB0, 0x0B] @ replicate 1456 1\<rparr>,
                   \<lparr>Version = 2, Marker = True, PayloadType = 96, SequenceNumber = 0,
                     Timestamp = 1000, SSRC = 0x1234, Payload = [0x80, 3, 7, 8, 9]\<rparr>],
              (example_Encoder 0)\<lparr>sequenceNumber := 1\<rparr>))"
  by (simp add: Encode_eval)

lemma Encode_example_small_max:
  "Encode example_ContainsKeyFrame example_LEB128Marshal example_timeEncode (example_Encoder 100)
     [replicate 200 1] 0 =
   Some (Inr (Inr [\<lparr>Version = 2, Marker = False, PayloadType = 96, SequenceNumber = 0xFFFF,
                     Timestamp = 1000, SSRC = 0x1234,
                     Payload = [0x40, 97] @ replicate 97 1\<rparr>,
                   \<lparr>Version = 2, Marker = False, PayloadType = 96, SequenceNumber = 0,
                     Timestamp = 1000, SSRC = 0x1234,
                     Payload = [0xC0, 97] @ replicate 97 1\<rparr>,
                   \<lparr>Version = 2, Marker = True, PayloadType = 96, SequenceNumber = 1,
                     Timestamp = 1000, SSRC = 0x1234,
                     Payload = [0x80, 6] @ replicate 6 1\<rparr>],
              (example_Encoder 100)\<lparr>sequenceNumber := 2\<rparr>))"
  by (simp add: Encode_eval)

theorem Encode_packet_headers_witness:
  "Encode example_ContainsKeyFrame example_LEB128Marshal example_timeEncode (example_Encoder 10)
     [[1, 2, 3, 4, 5, 6], [7, 8, 9]] 0 =
   Some (Inr (Inr [\<lparr>Version = 2, Marker = False, PayloadType = 96, SequenceNumber = 0xFFFF,
                     Timestamp = 1000, SSRC = 0x1234, Payload = [0x40, 6, 1, 2, 3, 4, 5, 6]\<rparr>,
                   \<lparr>Version = 2, Marker = True, PayloadType = 96, SequenceNumber = 0,
                     Timestamp = 1000, SSRC = 0x1234, Payload = [0x80, 3, 7, 8, 9]\<rparr>],
              (example_Encoder 10)\<lparr>sequenceNumber := 1\<rparr>)) \<and>
   sequenceNumber (example_Encoder 10) = 0xFFFF \<and>
   sequenceNumber (example_Encoder 10) + word_of_nat 1 = 0 \<and>
   (example_Encoder 10)\<lparr>sequenceNumber := 1\<rparr> =
     (example_Encoder 10)\<lparr>sequenceNumber := sequenceNumber (example_Encoder 10) + word_of_nat 2\<rparr>"
proof -
  from Encode_packet_headers [OF Encode_example_two_units, THEN conjunct2, THEN conjunct2,
      THEN conjunct1]
  have "(example_Encoder 10)\<lparr>sequenceNumber := 1\<rparr> =
     (example_Encoder 10)\<lparr>sequenceNumber := sequenceNumber (example_Encoder 10) + word_of_nat 2\<rparr>"
    by simp
  moreover have "sequenceNumber (example_Encoder 10) = 0xFFFF"
    "sequenceNumber (example_Encoder 10) + word_of_nat 1 = 0"
    by (simp_all add: example_Encoder_eq)
  ultimately show ?thesis using Encode_example_two_units by simp
qed

lemma length_Payload_or_Payload0 [simp]:
  "length (Payload (or_Payload0 m p)) = length (Payload p)"
  by (simp add: or_Payload0_def)

lemma PayloadMaxSize_next_packet [simp]:
  "PayloadMaxSize (enc (next_packet ts ssrc st)) = PayloadMaxSize (enc st)"
  by (simp add: enc_next_packet)

lemma size_inv_place_whole:
  assumes inv: "size_inv m st" and fits: "fits st obu" and m: "m \<le> 16386"
    and l: "\<forall>n<16384. length (l n) \<le> 2"
  shows "size_inv m (place_whole l st obu)"
proof -
  from inv have "packets st \<noteq> []" by (simp add: size_inv_def)
  then obtain ps c where p: "packets st = ps @ [c]" using snoc_cases by blast
  from inv p have c: "curPayloadLen st = int (length (Payload c))" "1 \<le> curPayloadLen st"
    "PayloadMaxSize (enc st) = m" "\<forall>p\<in>set ps. int (length (Payload p)) \<le> m"
    by (simp_all add: size_inv_def)
  from fits c m have "length obu < 16384" by (simp add: fits_def)
  with l have "length (l (length obu)) \<le> 2" by simp
  with fits c show ?thesis
    by (simp add: size_inv_def packets_place_whole[OF p] enc_place_whole
        curPayloadLen_place_whole fits_def)
qed

lemma size_inv_fragment:
  assumes inv: "size_inv m st" and nf: "\<not> fits st obu"
    and av: "2 < PayloadMaxSize (enc st) - curPayloadLen st" and m: "m \<le> 16386"
    and l: "\<forall>n<16384. length (l n) \<le> 2"
  shows "size_inv m (next_packet ts ssrc (place_fragment l st obu))"
proof -
  from inv have "packets st \<noteq> []" by (simp add: size_inv_def)
  then obtain ps c where p: "packets st = ps @ [c]" using snoc_cases by blast
  from inv p have c: "curPayloadLen st = int (length (Payload c))" "1 \<le> curPayloadLen st"
    "PayloadMaxSize (enc st) = m" "\<forall>p\<in>set ps. int (length (Payload p)) \<le> m"
    by (simp_all add: size_inv_def)
  define n where "n = nat (PayloadMaxSize (enc st) - curPayloadLen st - 2)"
  from av c m have n: "n < 16384" "int n = m - curPayloadLen st - 2" by (simp_all add: n_def)
  with l have ln: "length (l n) \<le> 2" by simp
  from nf n c have tk: "length (take n obu) = n" by (simp add: fits_def)
  have pf: "packets (place_fragment l st obu) = ps @ [c\<lparr>Payload := Payload c @ l n @ take n obu\<rparr>]"
    using packets_place_fragment[OF p] by (simp add: n_def)
  from c n ln tk av show ?thesis
    by (simp add: size_inv_def packets_next_packet[OF pf] curPayloadLen_next_packet
        enc_place_fragment new_packet_def)
qed

lemma size_inv_skip:
  assumes inv: "size_inv m st"
  shows "size_inv m (next_packet ts ssrc st)"
proof -
  from inv have "packets st \<noteq> []" by (simp add: size_inv_def)
  then obtain ps c where p: "packets st = ps @ [c]" using snoc_cases by blast
  from inv p show ?thesis
    by (simp add: size_inv_def packets_next_packet[OF p] curPayloadLen_next_packet new_packet_def)
qed

lemma size_inv_obu_loop:
  assumes "obu_loop l ts ssrc st obu = Some st'" "size_inv m st" "m \<le> 16386"
    "\<forall>n<16384. length (l n) \<le> 2"
  shows "size_inv m st'"
  by (rule obu_loop_rule[OF assms(1), where P = "\<lambda>st obu. size_inv m st"])
     (simp_all add: assms size_inv_place_whole size_inv_fragment size_inv_skip)

lemma size_inv_obus_loop:
  "obus_loop l ts ssrc st obus = Some st' \<Longrightarrow> size_inv m st \<Longrightarrow> m \<le> 16386 \<Longrightarrow>
   \<forall>n<16384. length (l n) \<le> 2 \<Longrightarrow> size_inv m st'"
proof (induction obus arbitrary: st)
  case Nil
  then show ?case by simp
next
  case (Cons obu obus)
  from Cons.prems(1) obtain st1 where s: "obu_loop l ts ssrc st obu = Some st1"
    and r: "obus_loop l ts ssrc st1 obus = Some st'"
    by (auto split: option.splits)
  from size_inv_obu_loop[OF s Cons.prems(2,3,4)] have "size_inv m st1" .
  from Cons.IH[OF r this Cons.prems(3,4)] show ?case .
qed

lemma size_inv_first_state:
  "1 \<le> PayloadMaxSize e \<Longrightarrow> size_inv (PayloadMaxSize e) (first_state e ts ssrc)"
  by (simp add: size_inv_def first_state_simps new_packet_def)

lemma full_inv_first_state:
  "full_inv (PayloadMaxSize e) (first_state e ts ssrc)"
  by (simp add: full_inv_def first_state_simps new_packet_def)

lemma map_update_same: "(map g xs)[i := g (xs ! i)] = map g xs"
proof (cases "i < length xs")
  case True
  then show ?thesis by (simp add: list_update_same_conv)
next
  case False
  then show ?thesis by (simp add: list_update_beyond)
qed

lemma payload_lengths_marks:
  "map (\<lambda>p. length (Payload p)) (mark_last (mark_keyframe k ps)) = map (\<lambda>p. length (Payload p)) ps"
proof -
  have upd: "\<And>xs i f. (\<And>p. length (Payload (f p)) = length (Payload p)) \<Longrightarrow>
      map (\<lambda>p. length (Payload p)) (xs[i := f (xs ! i)]) = map (\<lambda>p. length (Payload p)) xs"
    using map_update_same[of "\<lambda>p. length (Payload p)"] by (simp add: map_update)
  have "map (\<lambda>p. length (Payload p)) (mark_keyframe k ps) = map (\<lambda>p. length (Payload p)) ps"
    by (simp add: mark_keyframe_def upd)
  moreover have "map (\<lambda>p. length (Payload p)) (mark_last (mark_keyframe k ps)) =
                 map (\<lambda>p. length (Payload p)) (mark_keyframe k ps)"
    unfolding mark_last_def by (rule upd) simp
  ultimately show ?thesis by simp
qed

lemma full_inv_fragment:
  assumes inv: "full_inv m st" and nf: "\<not> fits st obu"
    and m: "131 \<le> m" "m \<le> 16386"
    and l: "\<forall>n. 128 \<le> n \<and> n < 16384 \<longrightarrow> length (l n) = 2"
  shows "full_inv m (next_packet ts ssrc (place_fragment l st obu))"
proof -
  from inv have "packets st \<noteq> []" by (simp add: full_inv_def)
  then obtain ps c where p: "packets st = ps @ [c]" using snoc_cases by blast
  from inv p have c: "length (Payload c) = 1" "curPayloadLen st = 1"
    "PayloadMaxSize (enc st) = m" "\<forall>p\<in>set ps. int (length (Payload p)) = m"
    by (simp_all add: full_inv_def)
  define n where "n = nat (PayloadMaxSize (enc st) - curPayloadLen st - 2)"
  from c m have n: "128 \<le> n" "n < 16384" "int n = m - 3" by (simp_all add: n_def)
  with l have ln: "length (l n) = 2" by simp
  from nf n c have tk: "length (take n obu) = n" by (simp add: fits_def)
  have pf: "packets (place_fragment l st obu) = ps @ [c\<lparr>Payload := Payload c @ l n @ take n obu\<rparr>]"
    using packets_place_fragment[OF p] by (simp add: n_def)
  from c n ln tk show ?thesis
    by (simp add: full_inv_def packets_next_packet[OF pf] curPayloadLen_next_packet
        enc_place_fragment new_packet_def butlast_append)
qed

lemma full_inv_place_whole:
  assumes inv: "full_inv m st"
  shows "\<forall>p\<in>set (butlast (packets (place_whole l st obu))). int (length (Payload p)) = m"
proof -
  from inv have "packets st \<noteq> []" by (simp add: full_inv_def)
  then obtain ps c where p: "packets st = ps @ [c]" using snoc_cases by blast
  from inv p show ?thesis
    by (simp add: full_inv_def packets_place_whole[OF p])
qed

lemma full_inv_obu_loop:
  assumes run: "obu_loop l ts ssrc st obu = Some st'" and inv: "full_inv m st"
    and m: "131 \<le> m" "m \<le> 16386"
    and l: "\<forall>n. 128 \<le> n \<and> n < 16384 \<longrightarrow> length (l n) = 2"
  shows "\<forall>p\<in>set (butlast (packets st')). int (length (Payload p)) = m"
proof (rule obu_loop_rule[OF run, where P = "\<lambda>st obu. full_inv m st"])
  show "full_inv m st" by (rule inv)
next
  fix st obu assume "full_inv m st"
  then show "\<forall>p\<in>set (butlast (packets (place_whole l st obu))). int (length (Payload p)) = m"
    by (rule full_inv_place_whole)
next
  fix st :: "'a encode_state" and obu
  assume "full_inv m st" "\<not> fits st obu"
  then show "full_inv m (next_packet ts ssrc (place_fragment l st obu))"
    using m l by (rule full_inv_fragment)
next
  fix st :: "'a encode_state" and obu
  assume "full_inv m st" "\<not> 2 < PayloadMaxSize (enc st) - curPayloadLen st"
  with m show "full_inv m (next_packet ts ssrc st)" by (simp add: full_inv_def)
qed

text \<open>
  C4, as the code has it. With a maximum payload size of 100, one unit of 200 bytes (each
  of value 1) is cut into three packets; the first two, which are not the last, carry 99 payload bytes, one
  short of the maximum: the cut leaves room for a 2-byte size prefix and the prefix of 97
  takes one byte.
\<close>

theorem Encode_payload_size_counterexample:
  "Encode example_ContainsKeyFrame example_LEB128Marshal example_timeEncode (example_Encoder 100)
     [replicate 200 1] 0 =
   Some (Inr (Inr [\<lparr>Version = 2, Marker = False, PayloadType = 96, SequenceNumber = 0xFFFF,
                     Timestamp = 1000, SSRC = 0x1234,
                     Payload = [0x40, 97] @ replicate 97 1\<rparr>,
                   \<lparr>Version = 2, Marker = False, PayloadType = 96, SequenceNumber = 0,
                     Timestamp = 1000, SSRC = 0x1234,
                     Payload = [0xC0, 97] @ replicate 97 1\<rparr>,
                   \<lparr>Version = 2, Marker = True, PayloadType = 96, SequenceNumber = 1,
                     Timestamp = 1000, SSRC = 0x1234,
                     Payload = [0x80, 6] @ replicate 6 1\<rparr>],
              (example_Encoder 100)\<lparr>sequenceNumber := 2\<rparr>)) \<and>
   PayloadMaxSize (example_Encoder 100) = 100 \<and>
   length (replicate 200 (1 :: byte)) > 100 \<and>
   length ([0x40, 97] @ replicate 97 (1 :: byte)) = 99"
  using Encode_example_small_max by (simp add: example_Encoder_eq)

text \<open>
  C4, amended. For a maximum payload size from 1 to 16386 (\<^verbatim>\<open>Init\<close> sets 1460 when the field
  is unset) and a size prefix of at most 2 bytes for lengths below 16384, every packet of a
  returning call has a payload no longer than the maximum. If moreover the call is given
  exactly one unit, the maximum is at least 131 and the size prefix of a length from 128 to
  16383 has exactly 2 bytes, every packet but the last has a payload of exactly the maximum.
\<close>

theorem Encode_payload_size:
  assumes enc: "Encode ContainsKeyFrame LEB128Marshal timeEncode e obus pts = Some (Inr (Inr pkts, e'))"
    and l2: "\<forall>n<16384. length (LEB128Marshal n) \<le> 2"
    and m: "1 \<le> PayloadMaxSize e" "PayloadMaxSize e \<le> 16386"
  shows "(\<forall>p\<in>set pkts. int (length (Payload p)) \<le> PayloadMaxSize e) \<and>
         ((\<exists>u. obus = [u]) \<and> 131 \<le> PayloadMaxSize e \<and>
          (\<forall>n. 128 \<le> n \<and> n < 16384 \<longrightarrow> length (LEB128Marshal n) = 2)
          \<longrightarrow> (\<forall>i. Suc i < length pkts \<longrightarrow>
                 int (length (Payload (pkts ! i))) = PayloadMaxSize e)) \<and>
         PayloadMaxSize (Encoder_Init r1 r2 r3 NewEncoder e0) =
           (if PayloadMaxSize e0 = 0 then 1460 else PayloadMaxSize e0)"
proof (intro conjI impI)
  from enc obtain isKeyFrame te ssrc st1 where
    loop: "obus_loop LEB128Marshal (timeEncode te pts) ssrc
                 (first_state e (timeEncode te pts) ssrc) obus = Some st1"
    and pkts: "pkts = mark_last (mark_keyframe isKeyFrame (packets st1))"
    by (rule Encode_packets_cases)
  have lens: "map (\<lambda>p. length (Payload p)) pkts = map (\<lambda>p. length (Payload p)) (packets st1)"
    unfolding pkts by (rule payload_lengths_marks)
  from size_inv_obus_loop[OF loop size_inv_first_state[OF m(1)] m(2) l2]
  have "\<forall>p\<in>set (packets st1). int (length (Payload p)) \<le> PayloadMaxSize e"
    by (simp add: size_inv_def)
  then have "\<forall>n\<in>set (map (\<lambda>p. length (Payload p)) (packets st1)). int n \<le> PayloadMaxSize e"
    by simp
  with lens have "\<forall>n\<in>set (map (\<lambda>p. length (Payload p)) pkts). int n \<le> PayloadMaxSize e"
    by simp
  then show "\<forall>p\<in>set pkts. int (length (Payload p)) \<le> PayloadMaxSize e" by simp
  show "PayloadMaxSize (Encoder_Init r1 r2 r3 NewEncoder e0) =
           (if PayloadMaxSize e0 = 0 then 1460 else PayloadMaxSize e0)"
    by (simp add: Encoder_Init_def Let_def)
  assume single: "(\<exists>u. obus = [u]) \<and> 131 \<le> PayloadMaxSize e \<and>
          (\<forall>n. 128 \<le> n \<and> n < 16384 \<longrightarrow> length (LEB128Marshal n) = 2)"
  then obtain u where u: "obus = [u]" by blast
  with loop have run: "obu_loop LEB128Marshal (timeEncode te pts) ssrc
                 (first_state e (timeEncode te pts) ssrc) u = Some st1"
    by (simp split: option.splits)
  from full_inv_obu_loop[OF run full_inv_first_state _ m(2)] single
  have full: "\<forall>p\<in>set (butlast (packets st1)). int (length (Payload p)) = PayloadMaxSize e"
    by blast
  show "\<forall>i. Suc i < length pkts \<longrightarrow> int (length (Payload (pkts ! i))) = PayloadMaxSize e"
  proof (intro allI impI)
    fix i assume i: "Suc i < length pkts"
    have len: "length pkts = length (packets st1)" using pkts by simp
    with i have ib: "i < length (butlast (packets st1))" by simp
    then have "butlast (packets st1) ! i \<in> set (butlast (packets st1))" by (rule nth_mem)
    with full have "int (length (Payload (butlast (packets st1) ! i))) = PayloadMaxSize e" by blast
    with ib have a: "int (length (Payload (packets st1 ! i))) = PayloadMaxSize e"
      by (simp add: nth_butlast)
    from i len have "map (\<lambda>p. length (Payload p)) pkts ! i = length (Payload (pkts ! i))"
      "map (\<lambda>p. length (Payload p)) (packets st1) ! i = length (Payload (packets st1 ! i))"
      by simp_all
    with lens a show "int (length (Payload (pkts ! i))) = PayloadMaxSize e" by simp
  qed
qed

lemma example_LEB128Marshal_short:
  "n < 128 \<Longrightarrow> length (example_LEB128Marshal n) = 1"
  by (subst example_LEB128Marshal.simps) (simp add: Let_def)

lemma example_LEB128Marshal_two:
  assumes "128 \<le> n" "n < 16384"
  shows "length (example_LEB128Marshal n) = 2"
proof -
  from assms have d: "n div 128 < 128" "\<not> n div 128 \<le> 0" by simp_all
  from d(2) have "length (example_LEB128Marshal n) = Suc (length (example_LEB128Marshal (n div 128)))"
    by (subst example_LEB128Marshal.simps) (simp add: Let_def)
  with example_LEB128Marshal_short[OF d(1)] show ?thesis by simp
qed

lemma example_LEB128Marshal_le2: "\<forall>n<16384. length (example_LEB128Marshal n) \<le> 2"
proof (intro allI impI)
  fix n :: nat assume "n < 16384"
  then show "length (example_LEB128Marshal n) \<le> 2"
    using example_LEB128Marshal_short[of n] example_LEB128Marshal_two[of n]
    by (cases "n < 128") simp_all
qed

lemma example_LEB128Marshal_eq2:
  "\<forall>n. 128 \<le> n \<and> n < 16384 \<longrightarrow> length (example_LEB128Marshal n) = 2"
  using example_LEB128Marshal_two by blast

lemma Encode_example_fragmented:
  "Encode example_ContainsKeyFrame example_LEB128Marshal example_timeEncode (example_Encoder 0)
     [replicate 3000 1] 0 =
   Some (Inr (Inr [\<lparr>Version = 2, Marker = False, PayloadType = 96, SequenceNumber = 0xFFFF,
                     Timestamp = 1000, SSRC = 0x1234,
                     Payload = [0x40, 0xB1, 0x0B] @ replicate 1457 1\<rparr>,
                   \<lparr>Version = 2, Marker = False, PayloadType = 96, SequenceNumber = 0,
                     Timestamp = 1000, SSRC = 0x1234,
                     Payload = [0xC0, 0xB1, 0x0B] @ replicate 1457 1\<rparr>,
                   \<lparr>Version = 2, Marker = True, PayloadType = 96, SequenceNumber = 1,
                     Timestamp = 1000, SSRC = 0x1234,
                     Payload = [0x80, 86] @ replicate 86 1\<rparr>],
              (example_Encoder 0)\<lparr>sequenceNumber := 2\<rparr>))"
  by (simp add: Encode_eval)

theorem Encode_payload_size_witness:
  "Encode example_ContainsKeyFrame example_LEB128Marshal example_timeEncode (example_Encoder 0)
     [replicate 3000 1] 0 =
   Some (Inr (Inr [\<lparr>Version = 2, Marker = False, PayloadType = 96, SequenceNumber = 0xFFFF,
                     Timestamp = 1000, SSRC = 0x1234,
                     Payload = [0x40, 0xB1, 0x0B] @ replicate 1457 1\<rparr>,
                   \<lparr>Version = 2, Marker = False, PayloadType = 96, SequenceNumber = 0,
                     Timestamp = 1000, SSRC = 0x1234,
                     Payload = [0xC0, 0xB1, 0x0B] @ replicate 1457 1\<rparr>,
                   \<lparr>Version = 2, Marker = True, PayloadType = 96, SequenceNumber = 1,
                     Timestamp = 1000, SSRC = 0x1234,
                     Payload = [0x80, 86] @ replicate 86 1\<rparr>],
              (example_Encoder 0)\<lparr>sequenceNumber := 2\<rparr>)) \<and>
   PayloadMaxSize (example_Encoder 0) = 1460 \<and>
   int (length ([0x40, 0xB1, 0x0B] @ replicate 1457 (1 :: byte))) = PayloadMaxSize (example_Encoder 0) \<and>
   int (length ([0xC0, 0xB1, 0x0B] @ replicate 1457 (1 :: byte))) = PayloadMaxSize (example_Encoder 0) \<and>
   int (length ([0x80, 86] @ replicate 86 (1 :: byte))) \<le> PayloadMaxSize (example_Encoder 0)"
proof -
  have m: "1 \<le> PayloadMaxSize (example_Encoder 0)" "PayloadMaxSize (example_Encoder 0) \<le> 16386"
    "131 \<le> PayloadMaxSize (example_Encoder 0)" "PayloadMaxSize (example_Encoder 0) = 1460"
    by (simp_all add: example_Encoder_eq)
  note t = Encode_payload_size [OF Encode_example_fragmented example_LEB128Marshal_le2 m(1,2)]
  from t have all: "\<forall>p\<in>set [\<lparr>Version = 2, Marker = False, PayloadType = 96, SequenceNumber = 0xFFFF,
                     Timestamp = 1000, SSRC = 0x1234,
                     Payload = [0x40, 0xB1, 0x0B] @ replicate 1457 1\<rparr>,
                   \<lparr>Version = 2, Marker = False, PayloadType = 96, SequenceNumber = 0,
                     Timestamp = 1000, SSRC = 0x1234,
                     Payload = [0xC0, 0xB1, 0x0B] @ replicate 1457 1\<rparr>,
                   \<lparr>Version = 2, Marker = True, PayloadType = 96, SequenceNumber = 1,
                     Timestamp = 1000, SSRC = 0x1234,
                     Payload = [0x80, 86] @ replicate 86 1\<rparr>].
              int (length (Payload p)) \<le> PayloadMaxSize (example_Encoder 0)"
    by (rule conjunct1)
  from t m(3) example_LEB128Marshal_eq2
  have full: "\<forall>i. Suc i < length [\<lparr>Version = 2, Marker = False, PayloadType = 96, SequenceNumber = 0xFFFF,
                     Timestamp = 1000, SSRC = 0x1234,
                     Payload = [0x40, 0xB1, 0x0B] @ replicate 1457 1\<rparr>,
                   \<lparr>Version = 2, Marker = False, PayloadType = 96, SequenceNumber = 0,
                     Timestamp = 1000, SSRC = 0x1234,
                     Payload = [0xC0, 0xB1, 0x0B] @ replicate 1457 1\<rparr>,
                   \<lparr>Version = 2, Marker = True, PayloadType = 96, SequenceNumber = 1,
                     Timestamp = 1000, SSRC = 0x1234,
                     Payload = [0x80, 86] @ replicate 86 (1 :: byte)\<rparr>] \<longrightarrow>
          int (length (Payload ([\<lparr>Version = 2, Marker = False, PayloadType = 96, SequenceNumber = 0xFFFF,
                     Timestamp = 1000, SSRC = 0x1234,
                     Payload = [0x40, 0xB1, 0x0B] @ replicate 1457 1\<rparr>,
                   \<lparr>Version = 2, Marker = False, PayloadType = 96, SequenceNumber = 0,
                     Timestamp = 1000, SSRC = 0x1234,
                     Payload = [0xC0, 0xB1, 0x0B] @ replicate 1457 1\<rparr>,
                   \<lparr>Version = 2, Marker = True, PayloadType = 96, SequenceNumber = 1,
                     Timestamp = 1000, SSRC = 0x1234,
                     Payload = [0x80, 86] @ replicate 86 1\<rparr>] ! i))) = PayloadMaxSize (example_Encoder 0)"
    by blast
  from full[rule_format, of 0] full[rule_format, of 1] all m(4) Encode_example_fragmented
  show ?thesis by simp
qed

text \<open>
  The loops return whenever the maximum payload size is at least 4: a new packet then has
  room for a size prefix and one byte of the unit. (With a maximum of 3 or less and a unit
  that does not fit, the inner loop creates packets for ever.)
\<close>

lemma obu_loop_returns_aux:
  assumes m: "4 \<le> PayloadMaxSize (enc st)"
  shows "k = 2 * length obu + (if curPayloadLen st = 1 then 0 else 1) \<Longrightarrow>
         \<exists>st'. obu_loop l ts ssrc st obu = Some st'"
  using m
proof (induction k arbitrary: st obu rule: less_induct)
  case (less k)
  show ?case
  proof (cases "fits st obu")
    case True
    then show ?thesis by (subst obu_loop_unfold) simp
  next
    case nf: False
    show ?thesis
    proof (cases "2 < PayloadMaxSize (enc st) - curPayloadLen st")
      case True
      define n where "n = nat (PayloadMaxSize (enc st) - curPayloadLen st - 2)"
      define st1 where "st1 = next_packet ts ssrc (place_fragment l st obu)"
      from True have n: "0 < n" by (simp add: n_def)
      from nf True have "n < length obu" by (simp add: fits_def n_def)
      with n have dec: "2 * length (drop n obu) + (if curPayloadLen st1 = 1 then 0 else 1) < k"
        by (simp add: less.prems(1) st1_def curPayloadLen_next_packet)
      have "4 \<le> PayloadMaxSize (enc st1)"
        using less.prems(2) by (simp add: st1_def enc_place_fragment)
      from less.IH[OF dec refl this] obtain st' where
        "obu_loop l ts ssrc st1 (drop n obu) = Some st'" by blast
      with nf True show ?thesis
        by (subst obu_loop_unfold) (simp add: st1_def n_def)
    next
      case False
      define st1 where "st1 = next_packet ts ssrc st"
      from False less.prems(2) have "curPayloadLen st \<noteq> 1" by auto
      then have dec: "2 * length obu + (if curPayloadLen st1 = 1 then 0 else 1) < k"
        by (simp add: less.prems(1) st1_def curPayloadLen_next_packet)
      have "4 \<le> PayloadMaxSize (enc st1)"
        using less.prems(2) by (simp add: st1_def)
      from less.IH[OF dec refl this] obtain st' where
        "obu_loop l ts ssrc st1 obu = Some st'" by blast
      with nf False show ?thesis
        by (subst obu_loop_unfold) (simp add: st1_def)
    qed
  qed
qed

lemma obu_loop_returns:
  "4 \<le> PayloadMaxSize (enc st) \<Longrightarrow> \<exists>st'. obu_loop l ts ssrc st obu = Some st'"
  using obu_loop_returns_aux[OF _ refl] by blast

lemma PayloadMaxSize_obu_loop:
  assumes "obu_loop l ts ssrc st obu = Some st'"
  shows "PayloadMaxSize (enc st') = PayloadMaxSize (enc st)"
  by (rule obu_loop_rule[OF assms, where P = "\<lambda>s obu. PayloadMaxSize (enc s) = PayloadMaxSize (enc st)"])
     (simp_all add: enc_place_whole enc_place_fragment)

lemma obus_loop_returns:
  "4 \<le> PayloadMaxSize (enc st) \<Longrightarrow> \<exists>st'. obus_loop l ts ssrc st obus = Some st'"
proof (induction obus arbitrary: st)
  case Nil
  then show ?case by simp
next
  case (Cons obu obus)
  from obu_loop_returns[OF Cons.prems] obtain st1 where s: "obu_loop l ts ssrc st obu = Some st1"
    by blast
  from PayloadMaxSize_obu_loop[OF s] Cons.prems have "4 \<le> PayloadMaxSize (enc st1)" by simp
  from Cons.IH[OF this] s show ?case by simp
qed

lemma Encode_returns:
  assumes "4 \<le> PayloadMaxSize e" "timeEncoder e \<noteq> None" "EncoderSSRC e \<noteq> None"
  shows "\<exists>r e'. Encode ContainsKeyFrame LEB128Marshal timeEncode e obus pts = Some (Inr (r, e'))"
proof (cases "ContainsKeyFrame obus")
  case (Inl err)
  then show ?thesis by (simp add: Encode_unfold)
next
  case (Inr isKeyFrame)
  from assms obtain te ssrc where t: "timeEncoder e = Some te" "EncoderSSRC e = Some ssrc" by auto
  have "4 \<le> PayloadMaxSize (enc (first_state e (timeEncode te pts) ssrc))"
    using assms(1) by (simp add: first_state_simps)
  from obus_loop_returns[OF this] obtain st1 where
    "obus_loop LEB128Marshal (timeEncode te pts) ssrc (first_state e (timeEncode te pts) ssrc) obus
       = Some st1" by blast
  with Inr t show ?thesis by (simp add: Encode_unfold)
qed

lemma bit_or_flag:
  "bit ((x :: byte) OR push_bit k 1) j \<longleftrightarrow> bit x j \<or> (j = k \<and> k < 8)"
  by (auto simp add: bit_or_iff bit_exp_iff possible_bit_word)

lemma bit_or_flags:
  "bit ((x :: byte) OR 64) j \<longleftrightarrow> bit x j \<or> j = 6"
  "bit ((x :: byte) OR 128) j \<longleftrightarrow> bit x j \<or> j = 7"
  "bit ((x :: byte) OR 8) j \<longleftrightarrow> bit x j \<or> j = 3"
  using bit_or_flag[of x 6 j] bit_or_flag[of x 7 j] bit_or_flag[of x 3 j] by simp_all

lemma flags_ok_append:
  "flags_ok i c \<Longrightarrow> flags_ok i (c\<lparr>Payload := Payload c @ xs\<rparr>)"
  by (simp add: flags_ok_def nth_append)

lemma flag_inv_place_whole: "flag_inv st \<Longrightarrow> flag_inv (place_whole l st obu)"
proof -
  assume a: "flag_inv st"
  then have "packets st \<noteq> []" by (simp add: flag_inv_def)
  then obtain ps c where p: "packets st = ps @ [c]" using snoc_cases by blast
  from a p have "Payload c \<noteq> []" by (simp add: flag_inv_def indexed_all_snoc flags_ok_def)
  with a p show ?thesis
    by (simp add: flag_inv_def packets_place_whole[OF p] indexed_all_snoc flags_ok_append
        nth_append)
qed

lemma flag_inv_place_fragment: "flag_inv st \<Longrightarrow> flag_inv (place_fragment l st obu)"
proof -
  assume a: "flag_inv st"
  then have "packets st \<noteq> []" by (simp add: flag_inv_def)
  then obtain ps c where p: "packets st = ps @ [c]" using snoc_cases by blast
  from a p have "Payload c \<noteq> []" by (simp add: flag_inv_def indexed_all_snoc flags_ok_def)
  with a p show ?thesis
    by (simp add: flag_inv_def packets_place_fragment[OF p] indexed_all_snoc flags_ok_append
        nth_append)
qed

lemma flag_inv_next_packet: "flag_inv st \<Longrightarrow> flag_inv (next_packet ts ssrc st)"
proof -
  assume a: "flag_inv st"
  then have "packets st \<noteq> []" by (simp add: flag_inv_def)
  then obtain ps c where p: "packets st = ps @ [c]" using snoc_cases by blast
  from a p have c: "Payload c \<noteq> []" by (simp add: flag_inv_def indexed_all_snoc flags_ok_def)
  with a p show ?thesis
    by (simp add: flag_inv_def packets_next_packet[OF p] indexed_all_snoc indexed_all_snoc2
        flags_ok_def or_Payload0_def new_packet_def bit_or_flags butlast_append)
qed

lemma flag_inv_obu_loop:
  assumes "obu_loop l ts ssrc st obu = Some st'" "flag_inv st"
  shows "flag_inv st'"
  by (rule obu_loop_rule[OF assms(1), where P = "\<lambda>st obu. flag_inv st"])
     (simp_all add: assms(2) flag_inv_place_whole flag_inv_place_fragment flag_inv_next_packet)

lemma flag_inv_obus_loop:
  "obus_loop l ts ssrc st obus = Some st' \<Longrightarrow> flag_inv st \<Longrightarrow> flag_inv st'"
proof (induction obus arbitrary: st)
  case Nil
  then show ?case by simp
next
  case (Cons obu obus)
  from Cons.prems(1) obtain st1 where s: "obu_loop l ts ssrc st obu = Some st1"
    and r: "obus_loop l ts ssrc st1 obus = Some st'"
    by (auto split: option.splits)
  from Cons.IH[OF r flag_inv_obu_loop[OF s Cons.prems(2)]] show ?case .
qed

lemma flag_inv_first_state: "flag_inv (first_state e ts ssrc)"
  by (simp add: flag_inv_def first_state_simps indexed_all_def flags_ok_def new_packet_def)

text \<open>
  What the code sets, on every input: the marker on the last packet only, bit 3 on the
  first packet only and only for a keyframe, bit 6 on every packet but the last and bit 7
  on every packet but the first.
\<close>

lemma Encode_flags:
  assumes enc: "Encode ContainsKeyFrame LEB128Marshal timeEncode e obus pts = Some (Inr (Inr pkts, e'))"
    and i: "i < length pkts"
  shows "(Marker (pkts ! i) \<longleftrightarrow> Suc i = length pkts) \<and>
         (bit (Payload (pkts ! i) ! 0) 3 \<longleftrightarrow> ContainsKeyFrame obus = Inr True \<and> i = 0) \<and>
         (bit (Payload (pkts ! i) ! 0) 6 \<longleftrightarrow> Suc i < length pkts) \<and>
         (bit (Payload (pkts ! i) ! 0) 7 \<longleftrightarrow> 0 < i)"
proof -
  from enc obtain isKeyFrame te ssrc st1 where
    k: "ContainsKeyFrame obus = Inr isKeyFrame"
    and loop: "obus_loop LEB128Marshal (timeEncode te pts) ssrc
                 (first_state e (timeEncode te pts) ssrc) obus = Some st1"
    and pkts: "pkts = mark_last (mark_keyframe isKeyFrame (packets st1))"
    by (rule Encode_packets_cases)
  define ps where "ps = packets st1"
  from flag_inv_obus_loop[OF loop flag_inv_first_state]
  have inv: "flag_inv st1" .
  have len: "length pkts = length ps" using pkts by (simp add: ps_def)
  with i have ips: "i < length ps" by simp
  from inv ips have ok: "flags_ok i (ps ! i)" by (simp add: flag_inv_def indexed_all_def ps_def)
  have b6: "bit (Payload (ps ! i) ! 0) 6 \<longleftrightarrow> Suc i < length ps"
  proof (cases "Suc i < length ps")
    case True
    then have "i < length (butlast ps)" by simp
    then have "butlast ps ! i \<in> set (butlast ps)" by (rule nth_mem)
    with inv have "bit (Payload (butlast ps ! i) ! 0) 6" by (simp add: flag_inv_def ps_def)
    with True show ?thesis by (simp add: nth_butlast)
  next
    case False
    with ips have "i = length ps - 1" "ps \<noteq> []" by auto
    then have "ps ! i = last ps" by (simp add: last_conv_nth)
    with inv False show ?thesis by (simp add: flag_inv_def ps_def)
  qed
  define mk where "mk = mark_keyframe isKeyFrame ps"
  have mk: "mk ! i = (if isKeyFrame \<and> i = 0 then or_Payload0 (push_bit 3 1) (ps ! i) else ps ! i)"
    using ips by (auto simp: mk_def mark_keyframe_def nth_list_update)
  have lmk: "length mk = length ps" by (simp add: mk_def mark_keyframe_def)
  have pi: "pkts ! i = (if Suc i = length ps then (mk ! i)\<lparr>Marker := True\<rparr> else mk ! i)"
    using ips lmk unfolding pkts ps_def[symmetric] mk_def[symmetric] mark_last_def
    by (auto simp: nth_list_update)
  from ok b6 show ?thesis
    unfolding pi mk len k
    by (auto simp: flags_ok_def or_Payload0_def bit_or_flags)
qed

text \<open>
  Outside the range of C4, amended: a maximum above 16386 lets a unit of 16384 bytes fit by
  the estimate of 2 prefix bytes while its prefix takes 3, and a negative maximum is below
  the one byte every packet starts with.
\<close>

lemma Encode_example_oversize:
  "Encode example_ContainsKeyFrame example_LEB128Marshal example_timeEncode
     (example_Encoder 16387) [replicate 16384 1] 0 =
   Some (Inr (Inr [\<lparr>Version = 2, Marker = True, PayloadType = 96, SequenceNumber = 0xFFFF,
                     Timestamp = 1000, SSRC = 0x1234,
                     Payload = [0, 0x80, 0x80, 1] @ replicate 16384 1\<rparr>],
              (example_Encoder 16387)\<lparr>sequenceNumber := 0\<rparr>)) \<and>
   int (length ([0, 0x80, 0x80, 1] @ replicate 16384 (1 :: byte))) = 16388"
  by (simp add: Encode_eval)

lemma Encode_example_negative_max:
  "Encode (\<lambda>obus. Inr False :: unit + bool) example_LEB128Marshal example_timeEncode
     (example_Encoder (- 1)) [] 0 =
   Some (Inr (Inr [\<lparr>Version = 2, Marker = True, PayloadType = 96, SequenceNumber = 0xFFFF,
                     Timestamp = 1000, SSRC = 0x1234, Payload = [0]\<rparr>],
              (example_Encoder (- 1))\<lparr>sequenceNumber := 0\<rparr>))"
  by (simp add: Encode_eval)

text \<open>
  C6, at the failing input. With the default maximum of 1460, a unit of 1456 bytes fills the
  first packet to 1459 bytes; the next unit, of 3 bytes, does not fit, and with only one
  byte left nothing of it is written. The code still sets bit 6 on the first packet, whose
  last element is the complete first unit, and bit 7 on the second packet, which begins
  with the first byte of the second unit.
\<close>

theorem Encode_flags_without_fragment:
  "Encode example_ContainsKeyFrame example_LEB128Marshal example_timeEncode (example_Encoder 0)
     [replicate 1456 1, [7, 8, 9]] 0 =
   Some (Inr (Inr [\<lparr>Version = 2, Marker = False, PayloadType = 96, SequenceNumber = 0xFFFF,
                     Timestamp = 1000, SSRC = 0x1234,
                     Payload = [0x40] @ example_LEB128Marshal 1456 @ replicate 1456 1\<rparr>,
                   \<lparr>Version = 2, Marker = True, PayloadType = 96, SequenceNumber = 0,
                     Timestamp = 1000, SSRC = 0x1234,
                     Payload = [0x80] @ example_LEB128Marshal 3 @ [7, 8, 9]\<rparr>],
              (example_Encoder 0)\<lparr>sequenceNumber := 1\<rparr>)) \<and>
   PayloadMaxSize (example_Encoder 0) = 1460 \<and>
   bit (0x40 :: byte) 6 \<and> bit (0x80 :: byte) 7"
  using Encode_example_default by (simp add: example_Encoder_eq example_LEB128Marshal.simps)

end
